theory Spec2Isabelle
  imports Complex_Main "HOL-Library.Sublist" "HOL-Library.AList"
begin

section \<open>Strings\<close>

text \<open>
  A Python \<open>str\<close> is a sequence of Unicode code points, and \<open>len\<close>, indexing and
  \<open>startswith\<close> count code points. A character is therefore modelled by its code
  point, a natural number, so that the Tibetan text the repository works on is covered.
  \<open>str\<close> turns an ASCII literal into such a string.
\<close>

type_synonym pychar = nat
type_synonym pystr = "pychar list"

definition str :: "string \<Rightarrow> pystr" where
  "str s = map of_char s"

definition space :: pychar where
  "space = 32"

definition newline :: pychar where
  "newline = 10"

text \<open>The reserved token \<open>"<sent_br>"\<close>.\<close>

definition sent_br :: pystr where
  "sent_br = str ''<sent_br>''"

text \<open>\<open>s.replace(" ", "")\<close>: every space character is deleted.\<close>

definition remove_spaces :: "pystr \<Rightarrow> pystr" where
  "remove_spaces s = filter (\<lambda>c. c \<noteq> space) s"

text \<open>
  \<open>s.startswith(prefix, start)\<close> compares \<open>s[start : start + len(prefix)]\<close> with
  \<open>prefix\<close>; a start beyond the end of \<open>s\<close> gives False.
\<close>

definition startswith :: "pystr \<Rightarrow> pystr \<Rightarrow> nat \<Rightarrow> bool" where
  "startswith s pre start \<longleftrightarrow> start \<le> length s \<and> take (length pre) (drop start s) = pre"

text \<open>\<open>sub in s\<close> on two strings: \<open>sub\<close> occurs in \<open>s\<close> as a contiguous substring.\<close>

fun occurs_in :: "pystr \<Rightarrow> pystr \<Rightarrow> bool" where
  "occurs_in sub [] \<longleftrightarrow> sub = []"
| "occurs_in sub (c # cs) \<longleftrightarrow> prefix sub (c # cs) \<or> occurs_in sub cs"

text \<open>\<open>s.split("\n")\<close>: the pieces between newlines; never the empty list.\<close>

fun split_newline :: "pystr \<Rightarrow> pystr list" where
  "split_newline [] = [[]]"
| "split_newline (c # cs) =
     (if c = newline then [] # split_newline cs
      else (c # hd (split_newline cs)) # tl (split_newline cs))"

section \<open>The alignment validator (sentence_validation.py)\<close>

text \<open>
  \<open>manhattan_distance\<close>: \<open>-1\<close> for strings of unequal length, otherwise the number of
  positions at which they differ.
\<close>

definition manhattan_distance :: "pystr \<Rightarrow> pystr \<Rightarrow> int" where
  "manhattan_distance str1 str2 =
     (if length str1 \<noteq> length str2 then - 1
      else int (length (filter (\<lambda>(c1, c2). c1 \<noteq> c2) (zip str1 str2))))"

text \<open>
  The first \<open>while\<close> loop of \<open>replace_sentence_breaks_and_validate\<close>, over the
  space-free source and target, with the cursors \<open>src_idx\<close> and \<open>tgt_idx\<close> and the
  buffer \<open>reconstructed_target\<close>. \<open>None\<close> is one of the two \<open>return False\<close> inside the
  loop; \<open>Some\<close> carries the source cursor and the buffer at the loop's exit.
\<close>

function walk_target :: "pystr \<Rightarrow> pystr \<Rightarrow> nat \<Rightarrow> nat \<Rightarrow> pystr \<Rightarrow> (nat \<times> pystr) option" where
  "walk_target source target src_idx tgt_idx reconstructed =
     (if tgt_idx < length target then
        if startswith target sent_br tgt_idx then
          if src_idx < length source \<and> source ! src_idx = newline
          then walk_target source target (src_idx + 1) (tgt_idx + length sent_br)
                 (reconstructed @ [newline])
          else walk_target source target src_idx (tgt_idx + length sent_br) reconstructed
        else if src_idx \<ge> length source then None
        else if target ! tgt_idx \<noteq> source ! src_idx then None
        else walk_target source target (src_idx + 1) (tgt_idx + 1)
               (reconstructed @ [target ! tgt_idx])
      else Some (src_idx, reconstructed))"
  by pat_completeness auto
termination
  by (relation "measure (\<lambda>(source, target, src_idx, tgt_idx, reconstructed). length target - tgt_idx)")
     (auto simp: sent_br_def str_def)

text \<open>
  The second \<open>while\<close> loop: what is left of the source must be newlines. \<open>False\<close> is the
  \<open>return False\<close> inside the loop.
\<close>

function consume_tail :: "pystr \<Rightarrow> nat \<Rightarrow> bool" where
  "consume_tail source src_idx =
     (if src_idx < length source then
        if source ! src_idx \<noteq> newline then False
        else consume_tail source (src_idx + 1)
      else True)"
  by pat_completeness auto
termination
  by (relation "measure (\<lambda>(source, src_idx). length source - src_idx)") auto

text \<open>
  The body of \<open>replace_sentence_breaks_and_validate\<close> on the two strings of a data
  point: this is the spec's \<open>validate(source, target)\<close>.
\<close>

definition validate :: "pystr \<Rightarrow> pystr \<Rightarrow> bool" where
  "validate source target =
     (let source_no_spaces = remove_spaces source;
          target_no_spaces = remove_spaces target
      in case walk_target source_no_spaces target_no_spaces 0 0 [] of
           None \<Rightarrow> False
         | Some (src_idx, reconstructed_target) \<Rightarrow>
             if \<not> consume_tail source_no_spaces src_idx then False
             else manhattan_distance source_no_spaces reconstructed_target = 0)"

section \<open>JSON values and Python exceptions\<close>

text \<open>
  What \<open>json.load\<close> and \<open>json.loads\<close> return: \<open>None\<close>, a bool, an int, a (finite)
  float, a str, a list or a dict with string keys. A dict is an association list in
  key order, looked up with \<open>map_of\<close>.
\<close>

datatype jvalue =
    JNull
  | JBool bool
  | JInt int
  | JFloat real
  | JStr pystr
  | JArr "jvalue list"
  | JObj "(pystr \<times> jvalue) list"

datatype pyexn =
    KeyError
  | TypeError
  | AttributeError
  | ValueError
  | ZeroDivisionError
  | UnicodeEncodeError
  | FileNotFoundError

definition source_key :: pystr where
  "source_key = str ''source''"

definition target_key :: pystr where
  "target_key = str ''target''"

definition filename_key :: pystr where
  "filename_key = str ''filename''"

definition line_number_key :: pystr where
  "line_number_key = str ''line_number''"

definition error_key :: pystr where
  "error_key = str ''error''"

definition line_key :: pystr where
  "line_key = str ''line''"

text \<open>\<open>obj[key]\<close> with a string key: only a dict can be subscripted by a string.\<close>

fun getitem :: "jvalue \<Rightarrow> pystr \<Rightarrow> pyexn + jvalue" where
  "getitem (JObj kv) key = (case map_of kv key of None \<Rightarrow> Inl KeyError | Some v \<Rightarrow> Inr v)"
| "getitem _ key = Inl TypeError"

text \<open>\<open>obj.get(key, None)\<close>: only a dict has the method.\<close>

fun dict_get :: "jvalue \<Rightarrow> pystr \<Rightarrow> pyexn + jvalue" where
  "dict_get (JObj kv) key = (case map_of kv key of None \<Rightarrow> Inr JNull | Some v \<Rightarrow> Inr v)"
| "dict_get _ key = Inl AttributeError"

text \<open>
  \<open>key in obj\<close> with a string key: a key of a dict, an element of a list, a substring
  of a string; the other values are not containers.
\<close>

fun contains :: "pystr \<Rightarrow> jvalue \<Rightarrow> pyexn + bool" where
  "contains key (JObj kv) = Inr (map_of kv key \<noteq> None)"
| "contains key (JArr xs) = Inr (JStr key \<in> set xs)"
| "contains key (JStr s) = Inr (occurs_in key s)"
| "contains key _ = Inl TypeError"

text \<open>\<open>obj[key] = v\<close> with a string key: a dict keeps the key's place or appends it.\<close>

fun setitem :: "jvalue \<Rightarrow> pystr \<Rightarrow> jvalue \<Rightarrow> pyexn + jvalue" where
  "setitem (JObj kv) key v = Inr (JObj (AList.update key v kv))"
| "setitem _ key v = Inl TypeError"

text \<open>The receiver of a \<open>str\<close> method (\<open>replace\<close>, \<open>split\<close>) must be a string.\<close>

fun as_str :: "jvalue \<Rightarrow> pyexn + pystr" where
  "as_str (JStr s) = Inr s"
| "as_str _ = Inl AttributeError"

text \<open>Truth value of \<open>if v:\<close>.\<close>

fun truthy :: "jvalue \<Rightarrow> bool" where
  "truthy JNull \<longleftrightarrow> False"
| "truthy (JBool b) \<longleftrightarrow> b"
| "truthy (JInt i) \<longleftrightarrow> i \<noteq> 0"
| "truthy (JFloat x) \<longleftrightarrow> x \<noteq> 0"
| "truthy (JStr s) \<longleftrightarrow> s \<noteq> []"
| "truthy (JArr xs) \<longleftrightarrow> xs \<noteq> []"
| "truthy (JObj kv) \<longleftrightarrow> kv \<noteq> []"

section \<open>The validation path (sentence_validation.py)\<close>

text \<open>
  \<open>replace_sentence_breaks_and_validate(data_point)\<close>: the deep copy changes nothing
  in a model without mutation; the two lookups and the two \<open>replace\<close> calls raise in
  the source's order.
\<close>

definition replace_sentence_breaks_and_validate :: "jvalue \<Rightarrow> pyexn + bool" where
  "replace_sentence_breaks_and_validate data_point =
     (case getitem data_point source_key of Inl e \<Rightarrow> Inl e | Inr source_value \<Rightarrow>
     (case as_str source_value of Inl e \<Rightarrow> Inl e | Inr source \<Rightarrow>
     (case getitem data_point target_key of Inl e \<Rightarrow> Inl e | Inr target_value \<Rightarrow>
     (case as_str target_value of Inl e \<Rightarrow> Inl e | Inr target \<Rightarrow>
        Inr (validate source target)))))"

text \<open>The characters \<open>str.strip()\<close> removes: those for which \<open>str.isspace\<close> holds.\<close>

definition is_whitespace :: "pychar \<Rightarrow> bool" where
  "is_whitespace c \<longleftrightarrow>
     (9 \<le> c \<and> c \<le> 13) \<or> (28 \<le> c \<and> c \<le> 32) \<or> c = 133 \<or> c = 160 \<or> c = 5760 \<or>
     (8192 \<le> c \<and> c \<le> 8202) \<or> c = 8232 \<or> c = 8233 \<or> c = 8239 \<or> c = 8287 \<or> c = 12288"

definition strip :: "pystr \<Rightarrow> pystr" where
  "strip s = rev (dropWhile is_whitespace (rev (dropWhile is_whitespace s)))"

text \<open>
  \<open>"source" not in data_point or "target" not in data_point\<close>, the second test
  evaluated only when the first is false.
\<close>

definition missing_keys :: "jvalue \<Rightarrow> pyexn + bool" where
  "missing_keys data_point =
     (case contains source_key data_point of Inl e \<Rightarrow> Inl e
      | Inr has_source \<Rightarrow>
          if \<not> has_source then Inr True
          else (case contains target_key data_point of Inl e \<Rightarrow> Inl e
                | Inr has_target \<Rightarrow> Inr (\<not> has_target)))"

text \<open>
  The loop \<open>for line_number, line in enumerate(infile, start=1)\<close> of
  \<open>process_tibetan_sentences\<close>. \<open>json.loads\<close> is the parameter \<open>loads\<close>: \<open>Inl msg\<close> is a
  \<open>JSONDecodeError\<close> with \<open>str(e) = msg\<close>. \<open>Inl\<close> of the loop is an exception that leaves
  it.
\<close>

fun read_lines :: "(pystr \<Rightarrow> pystr + jvalue) \<Rightarrow> nat \<Rightarrow> pystr list \<Rightarrow> jvalue list \<Rightarrow> jvalue list
    \<Rightarrow> pyexn + (jvalue list \<times> jvalue list)" where
  "read_lines loads line_number [] valid_data_points invalid_data_points =
     Inr (valid_data_points, invalid_data_points)"
| "read_lines loads line_number (raw # rest) valid_data_points invalid_data_points =
     (let line = strip raw in
      if line = [] then
        read_lines loads (line_number + 1) rest valid_data_points invalid_data_points
      else
        (case loads line of
          Inl msg \<Rightarrow>
            read_lines loads (line_number + 1) rest valid_data_points
              (invalid_data_points @
                 [JObj [(line_number_key, JInt (int line_number)), (error_key, JStr msg),
                        (line_key, JStr line)]])
        | Inr data_point \<Rightarrow>
            (case missing_keys data_point of
               Inl e \<Rightarrow> Inl e
             | Inr True \<Rightarrow>
                 (case setitem data_point line_number_key (JInt (int line_number)) of
                    Inl e \<Rightarrow> Inl e
                  | Inr marked \<Rightarrow>
                      read_lines loads (line_number + 1) rest valid_data_points
                        (invalid_data_points @ [marked]))
             | Inr False \<Rightarrow>
                 (case replace_sentence_breaks_and_validate data_point of
                    Inl e \<Rightarrow> Inl e
                  | Inr is_valid \<Rightarrow>
                      if is_valid then
                        read_lines loads (line_number + 1) rest
                          (valid_data_points @ [data_point]) invalid_data_points
                      else
                        read_lines loads (line_number + 1) rest valid_data_points
                          (invalid_data_points @ [data_point])))))"

text \<open>
  \<open>process_tibetan_sentences\<close>: \<open>None\<close> is an input file that does not exist, \<open>Some\<close> its
  lines. Any exception of the loop is caught by the outer handler, which returns two
  empty lists.
\<close>

definition process_tibetan_sentences ::
    "(pystr \<Rightarrow> pystr + jvalue) \<Rightarrow> pystr list option \<Rightarrow> jvalue list \<times> jvalue list" where
  "process_tibetan_sentences loads infile =
     (case infile of
        None \<Rightarrow> ([], [])
      | Some lines \<Rightarrow>
          (case read_lines loads 1 lines [] [] of
             Inl e \<Rightarrow> ([], [])
           | Inr result \<Rightarrow> result))"

section \<open>The fingerprint index (datasketch)\<close>

text \<open>
  Modelled from the spec: the \<open>datasketch\<close> library (\<open>MinHash\<close>, \<open>MinHashLSH\<close>) is not
  part of the repository. Section 4.2 of the spec gives its interface: a fingerprint of
  the set of paragraphs, a query for the keys of the similar fingerprints inserted so
  far, and an insertion that fails on a key already present. A fingerprint is modelled
  by the list of its band keys, computed from the paragraph set by the parameter
  \<open>sketch\<close>; two fingerprints are reported similar when they agree on a band, which is
  how the index's hash tables answer a query. The spec words the answer as an estimated
  similarity above the threshold 0.9; that estimate is \<open>similar_above_threshold\<close> below,
  and a band in common is what the index takes for it.
\<close>

type_synonym 'h minhash = "'h list"
type_synonym 'h lsh = "(nat \<times> 'h minhash) list"

definition collide :: "'h minhash \<Rightarrow> 'h minhash \<Rightarrow> bool" where
  "collide a b \<longleftrightarrow> list_ex (\<lambda>(x, y). x = y) (zip a b)"

definition lsh_query :: "'h lsh \<Rightarrow> 'h minhash \<Rightarrow> nat list" where
  "lsh_query index minhash = map fst (filter (\<lambda>(key, m). collide m minhash) index)"

definition lsh_insert :: "'h lsh \<Rightarrow> nat \<Rightarrow> 'h minhash \<Rightarrow> pyexn + 'h lsh" where
  "lsh_insert index key minhash =
     (if key \<in> fst ` set index then Inl ValueError
      else Inr (index @ [(key, minhash)]))"

text \<open>\<open>paragraph.encode("utf8")\<close> raises on a surrogate code point.\<close>

definition utf8_encodable :: "pystr \<Rightarrow> bool" where
  "utf8_encodable s \<longleftrightarrow> list_all (\<lambda>c. \<not> (55296 \<le> c \<and> c \<le> 57343)) s"

text \<open>
  The fingerprint of a source text: a \<open>MinHash\<close> updated with every paragraph of
  \<open>set(source_text.split("\n"))\<close>.
\<close>

definition make_minhash :: "(pystr set \<Rightarrow> 'h minhash) \<Rightarrow> jvalue \<Rightarrow> pyexn + 'h minhash" where
  "make_minhash sketch source_text =
     (case as_str source_text of
        Inl e \<Rightarrow> Inl e
      | Inr s \<Rightarrow>
          if list_all utf8_encodable (split_newline s)
          then Inr (sketch (set (split_newline s)))
          else Inl UnicodeEncodeError)"

text \<open>
  Modelled from the spec: the signature and the band layout behind the index (sections 3
  and 4.2 of the spec: a fixed-size sketch of 128 hash functions over the paragraph set,
  an estimated Jaccard similarity, the threshold 0.9). A \<open>MinHash\<close> keeps, for each of
  its hash functions, the least hash value over the paragraphs, starting from the
  largest 32-bit value; the index cuts the signature into \<open>b\<close> bands of \<open>r\<close> rows and
  files it under each band's rows, so that a query finds the keys that share a band.
  The hash functions \<open>perms\<close> (the library's permutations) and the layout \<open>b\<close>, \<open>r\<close>
  (which the library derives from the threshold and the number of hash functions,
  with \<open>b * r\<close> at most that number) are parameters. \<open>lsh_sketch perms b r\<close> is then a
  sketch in the sense above.
\<close>

definition max_hash :: nat where
  "max_hash = 4294967295"

definition minhash_values :: "(pystr \<Rightarrow> nat) list \<Rightarrow> pystr set \<Rightarrow> nat list" where
  "minhash_values perms paragraphs = map (\<lambda>h. Min (insert max_hash (h ` paragraphs))) perms"






section \<open>The batch deduplicator (deduplication.py)\<close>

text \<open>The two objects every batch shares: the index \<open>lsh\<close> and the dict \<open>minhashes\<close>.\<close>

record 'h index_state =
  lsh :: "'h lsh"
  minhashes :: "nat \<rightharpoonup> 'h minhash"

definition empty_index :: "'h index_state" where
  "empty_index = \<lparr>lsh = [], minhashes = Map.empty\<rparr>"

text \<open>
  The entry written for a record, unique or duplicate: its source and target, and its
  file name when that is truthy.
\<close>

definition build_entry :: "jvalue \<Rightarrow> jvalue \<Rightarrow> jvalue \<Rightarrow> jvalue" where
  "build_entry source_text target_text file_name =
     JObj ([(source_key, source_text), (target_key, target_text)] @
           (if truthy file_name then [(filename_key, file_name)] else []))"

text \<open>
  The loop \<open>for idx, entry in enumerate(chunk)\<close> of \<open>create_deduplicated_chunk\<close>, with
  the two result lists as accumulators.
\<close>

fun dedup_loop :: "(pystr set \<Rightarrow> 'h minhash) \<Rightarrow> nat \<Rightarrow> nat \<Rightarrow> jvalue list \<Rightarrow> 'h index_state
    \<Rightarrow> jvalue list \<Rightarrow> jvalue list \<Rightarrow> pyexn + (jvalue list \<times> jvalue list \<times> 'h index_state)" where
  "dedup_loop sketch start_idx idx [] st unique_entries duplicated_entries =
     Inr (unique_entries, duplicated_entries, st)"
| "dedup_loop sketch start_idx idx (entry # chunk) st unique_entries duplicated_entries =
     (case getitem entry source_key of Inl e \<Rightarrow> Inl e | Inr source_text \<Rightarrow>
     (case getitem entry target_key of Inl e \<Rightarrow> Inl e | Inr target_text \<Rightarrow>
     (case dict_get entry filename_key of Inl e \<Rightarrow> Inl e | Inr file_name \<Rightarrow>
     (case make_minhash sketch source_text of Inl e \<Rightarrow> Inl e | Inr minhash \<Rightarrow>
        if lsh_query (lsh st) minhash = [] then
          (case lsh_insert (lsh st) (start_idx + idx) minhash of
             Inl e \<Rightarrow> Inl e
           | Inr lsh' \<Rightarrow>
               dedup_loop sketch start_idx (idx + 1) chunk
                 \<lparr>lsh = lsh', minhashes = (minhashes st)(start_idx + idx \<mapsto> minhash)\<rparr>
                 (unique_entries @ [build_entry source_text target_text file_name])
                 duplicated_entries)
        else
          dedup_loop sketch start_idx (idx + 1) chunk st unique_entries
            (duplicated_entries @ [build_entry source_text target_text file_name])))))"

definition create_deduplicated_chunk :: "(pystr set \<Rightarrow> 'h minhash) \<Rightarrow> jvalue list \<Rightarrow> nat
    \<Rightarrow> 'h index_state \<Rightarrow> pyexn + (jvalue list \<times> jvalue list \<times> 'h index_state)" where
  "create_deduplicated_chunk sketch chunk start_idx st = dedup_loop sketch start_idx 0 chunk st [] []"

section \<open>The checkpointed runner (deduplication.py)\<close>

text \<open>
  An output file holds a JSON array, or does not exist (\<open>None\<close>). \<open>save_checkpoint\<close>
  overwrites in mode \<open>"w"\<close> or when the file is missing, and otherwise rewrites the file
  with the entries appended.
\<close>

datatype file_mode = Write | Append

definition save_checkpoint :: "jvalue list option \<Rightarrow> jvalue list \<Rightarrow> file_mode \<Rightarrow> jvalue list option" where
  "save_checkpoint output_file entries mode =
     (case output_file of
        None \<Rightarrow> Some entries
      | Some existing_entries \<Rightarrow>
          if mode = Write then Some entries else Some (existing_entries @ entries))"

text \<open>
  The loop that rebuilds the index from the persisted unique entries:
  \<open>for idx, entry in enumerate(dedup_entries)\<close>.
\<close>

fun replay :: "(pystr set \<Rightarrow> 'h minhash) \<Rightarrow> nat \<Rightarrow> jvalue list \<Rightarrow> 'h index_state
    \<Rightarrow> pyexn + 'h index_state" where
  "replay sketch idx [] st = Inr st"
| "replay sketch idx (entry # dedup_entries) st =
     (case getitem entry source_key of Inl e \<Rightarrow> Inl e | Inr source_text \<Rightarrow>
     (case make_minhash sketch source_text of Inl e \<Rightarrow> Inl e | Inr minhash \<Rightarrow>
     (case lsh_insert (lsh st) idx minhash of
        Inl e \<Rightarrow> Inl e
      | Inr lsh' \<Rightarrow>
          replay sketch (idx + 1) dedup_entries
            \<lparr>lsh = lsh', minhashes = (minhashes st)(idx \<mapsto> minhash)\<rparr>)))"

text \<open>
  The state of a run: the shared index, the two output files and the two in-memory
  buffers \<open>deduplicated_entries\<close> and \<open>duplicate_entries\<close>.
\<close>

record 'h run_state =
  index :: "'h index_state"
  output_file :: "jvalue list option"
  duplicates_output_file :: "jvalue list option"
  deduplicated_entries :: "jvalue list"
  duplicate_entries :: "jvalue list"

text \<open>
  Resume detection (lines 108 to 130 of \<open>process_in_batches\<close>): the number of batches
  already processed, the index and the two files.
\<close>

definition resume_state :: "(pystr set \<Rightarrow> 'h minhash) \<Rightarrow> nat \<Rightarrow> jvalue list option
    \<Rightarrow> jvalue list option \<Rightarrow> pyexn + (nat \<times> 'h run_state)" where
  "resume_state sketch chunk_size out dup =
     (case (out, dup) of
        (Some dedup_entries, Some dup_entries) \<Rightarrow>
          (let total_processed_entries = length dedup_entries + length dup_entries
           in if chunk_size = 0 then Inl ZeroDivisionError
              else
                (let processed_batches = total_processed_entries div chunk_size
                 in case replay sketch 0 dedup_entries empty_index of
                      Inl e \<Rightarrow> Inl e
                    | Inr st \<Rightarrow>
                        Inr (processed_batches,
                             \<lparr>index = st, output_file = out, duplicates_output_file = dup,
                              deduplicated_entries = [], duplicate_entries = []\<rparr>)))
      | _ \<Rightarrow>
          Inr (0, \<lparr>index = empty_index,
                   output_file = save_checkpoint out [] Write,
                   duplicates_output_file = save_checkpoint dup [] Write,
                   deduplicated_entries = [], duplicate_entries = []\<rparr>))"

text \<open>
  The batch loop \<open>for batch_num in range(processed_batches, total_batches)\<close>, over the
  list of batch numbers. A checkpoint appends the buffers to the files and clears them.
\<close>

fun batch_loop :: "(pystr set \<Rightarrow> 'h minhash) \<Rightarrow> jvalue list \<Rightarrow> nat \<Rightarrow> nat \<Rightarrow> nat \<Rightarrow> nat list
    \<Rightarrow> 'h run_state \<Rightarrow> pyexn + 'h run_state" where
  "batch_loop sketch json_data chunk_size checkpoint_interval total_batches [] rs = Inr rs"
| "batch_loop sketch json_data chunk_size checkpoint_interval total_batches (batch_num # batches) rs =
     (let total_rows = length json_data;
          start_idx = batch_num * chunk_size;
          end_idx = min (start_idx + chunk_size) total_rows;
          chunk = take (end_idx - start_idx) (drop start_idx json_data)
      in case create_deduplicated_chunk sketch chunk start_idx (index rs) of
           Inl e \<Rightarrow> Inl e
         | Inr (unique_entries, duplicated_entries_batch, st) \<Rightarrow>
             (let deduplicated = deduplicated_entries rs @ unique_entries;
                  duplicate = duplicate_entries rs @ duplicated_entries_batch
              in if checkpoint_interval = 0 then Inl ZeroDivisionError
                 else if (batch_num + 1) mod checkpoint_interval = 0 \<or> batch_num = total_batches - 1
                 then
                   batch_loop sketch json_data chunk_size checkpoint_interval total_batches batches
                     \<lparr>index = st,
                      output_file = save_checkpoint (output_file rs) deduplicated Append,
                      duplicates_output_file =
                        save_checkpoint (duplicates_output_file rs) duplicate Append,
                      deduplicated_entries = [], duplicate_entries = []\<rparr>
                 else
                   batch_loop sketch json_data chunk_size checkpoint_interval total_batches batches
                     \<lparr>index = st,
                      output_file = output_file rs,
                      duplicates_output_file = duplicates_output_file rs,
                      deduplicated_entries = deduplicated, duplicate_entries = duplicate\<rparr>))"

text \<open>
  \<open>process_in_batches\<close> on the parsed input \<open>json_data\<close> and the two output files.
  The result is what the final statistics read back: the contents of the unique-output
  file and of the duplicate-output file. The batch size and the checkpoint interval are
  natural numbers; zero raises at the first division.
\<close>

definition process_in_batches :: "(pystr set \<Rightarrow> 'h minhash) \<Rightarrow> jvalue list \<Rightarrow> jvalue list option
    \<Rightarrow> jvalue list option \<Rightarrow> nat \<Rightarrow> nat \<Rightarrow> pyexn + (jvalue list \<times> jvalue list)" where
  "process_in_batches sketch json_data out dup chunk_size checkpoint_interval =
     (let total_rows = length json_data
      in if chunk_size = 0 then Inl ZeroDivisionError
         else
           (let total_batches =
                  total_rows div chunk_size + (if total_rows mod chunk_size > 0 then 1 else 0)
            in case resume_state sketch chunk_size out dup of
                 Inl e \<Rightarrow> Inl e
               | Inr (processed_batches, rs) \<Rightarrow>
                   (case batch_loop sketch json_data chunk_size checkpoint_interval total_batches
                           [processed_batches..<total_batches] rs of
                      Inl e \<Rightarrow> Inl e
                    | Inr final \<Rightarrow>
                        (case (output_file final, duplicates_output_file final) of
                           (Some dedup_entries, Some dup_entries) \<Rightarrow>
                             Inr (dedup_entries, dup_entries)
                         | _ \<Rightarrow> Inl FileNotFoundError))))"

section \<open>Notions used to state the properties\<close>

text \<open>
  The first loop seen on what is left of the two strings: \<open>walk_rest src tgt\<close> is the
  part of the source not yet consumed when the target is exhausted, \<open>None\<close> when the
  loop returns False. It is related to \<open>walk_target\<close> by \<open>walk_target_cursor\<close> below.
\<close>

function walk_rest :: "pystr \<Rightarrow> pystr \<Rightarrow> pystr option" where
  "walk_rest src [] = Some src"
| "walk_rest src (c # tgt) =
     (if prefix sent_br (c # tgt) then
        if src \<noteq> [] \<and> hd src = newline
        then walk_rest (tl src) (drop (length sent_br) (c # tgt))
        else walk_rest src (drop (length sent_br) (c # tgt))
      else if src = [] then None
      else if c \<noteq> hd src then None
      else walk_rest (tl src) tgt)"
  by pat_completeness auto
termination
  by (relation "measure (\<lambda>(src, tgt). length tgt)") (auto simp: sent_br_def str_def)

text \<open>\<open>s.replace("\n", "<sent_br>")\<close>: every newline becomes the token.\<close>

definition replace_newlines :: "pystr \<Rightarrow> pystr" where
  "replace_newlines s = concat (map (\<lambda>c. if c = newline then sent_br else [c]) s)"

text \<open>
  Deleting a token between \<open>pre\<close> and \<open>post\<close> joins the two parts: \<open>joins_token\<close> holds
  when \<open>pre @ post\<close> has an occurrence of the token that starts in \<open>pre\<close> and ends in
  \<open>post\<close>, that is, when the deletion creates a token that was not there.
\<close>

definition joins_token :: "pystr \<Rightarrow> pystr \<Rightarrow> bool" where
  "joins_token pre post \<longleftrightarrow>
     list_ex (\<lambda>i. prefix sent_br (drop i (pre @ post)) \<and> length pre < i + length sent_br)
       [0..<length pre]"

text \<open>
  The paragraph set of an entry: \<open>set(entry["source"].split("\n"))\<close>, empty when the
  entry has no source string.
\<close>

definition source_paragraphs :: "jvalue \<Rightarrow> pystr set" where
  "source_paragraphs entry =
     (case getitem entry source_key of
        Inr (JStr s) \<Rightarrow> set (split_newline s)
      | _ \<Rightarrow> {})"

text \<open>
  An entry whose fingerprint can be computed: a dict whose \<open>source\<close> is a string that
  \<open>encode("utf8")\<close> accepts.
\<close>

definition has_source_text :: "jvalue \<Rightarrow> bool" where
  "has_source_text entry \<longleftrightarrow>
     (case getitem entry source_key of
        Inr (JStr s) \<Rightarrow> list_all utf8_encodable (split_newline s)
      | _ \<Rightarrow> False)"

text \<open>
  A record the deduplicator processes without raising: it has a source text as above
  and a \<open>target\<close> key.
\<close>

definition well_formed_record :: "jvalue \<Rightarrow> bool" where
  "well_formed_record entry \<longleftrightarrow>
     has_source_text entry \<and> (case getitem entry target_key of Inr t \<Rightarrow> True | Inl e \<Rightarrow> False)"

text \<open>
  The entry \<open>create_deduplicated_chunk\<close> writes for a record, to whichever list.
\<close>

definition emitted :: "jvalue \<Rightarrow> jvalue" where
  "emitted entry =
     (case (getitem entry source_key, getitem entry target_key, dict_get entry filename_key) of
        (Inr source_text, Inr target_text, Inr file_name) \<Rightarrow>
          build_entry source_text target_text file_name
      | _ \<Rightarrow> JNull)"

text \<open>
  Processing a list of consecutive batches of any sizes: each batch starts at the offset
  of its first record, the index is threaded through, and the results are concatenated,
  as the batch loop does with \<open>extend\<close>.
\<close>

fun run_batches :: "(pystr set \<Rightarrow> 'h minhash) \<Rightarrow> jvalue list list \<Rightarrow> nat \<Rightarrow> 'h index_state
    \<Rightarrow> pyexn + (jvalue list \<times> jvalue list \<times> 'h index_state)" where
  "run_batches sketch [] start_idx st = Inr ([], [], st)"
| "run_batches sketch (chunk # chunks) start_idx st =
     (case create_deduplicated_chunk sketch chunk start_idx st of
        Inl e \<Rightarrow> Inl e
      | Inr (unique_entries, duplicated_entries, st') \<Rightarrow>
          (case run_batches sketch chunks (start_idx + length chunk) st' of
             Inl e \<Rightarrow> Inl e
           | Inr (more_unique, more_duplicated, st'') \<Rightarrow>
               Inr (unique_entries @ more_unique, duplicated_entries @ more_duplicated, st'')))"

text \<open>
  A sketch for the examples: one band holding the paragraph set itself, so that two
  fingerprints collide exactly when the paragraph sets are equal.
\<close>

definition exact_sketch :: "pystr set \<Rightarrow> pystr set minhash" where
  "exact_sketch paragraphs = [paragraphs]"

text \<open>
  A record with the given source and target, for the examples.
\<close>

definition record_of :: "string \<Rightarrow> string \<Rightarrow> jvalue" where
  "record_of source target = JObj [(source_key, JStr (str source)), (target_key, JStr (str target))]"

text \<open>
  A parser for the examples: it agrees with \<open>json.loads\<close> on the five lines used in
  them (a record, the empty object, the number 5, a string and an unfinished array).
\<close>

definition example_loads :: "pystr \<Rightarrow> pystr + jvalue" where
  \<open>example_loads line =
     (if line = str ''{"source": "a b", "target": "ab"}''
        then Inr (JObj [(source_key, JStr (str ''a b'')), (target_key, JStr (str ''ab''))])
      else if line = str ''{}'' then Inr (JObj [])
      else if line = str ''5'' then Inr (JInt 5)
      else if line = str ''"source target"'' then Inr (JStr (str ''source target''))
      else Inl (str ''Expecting value: line 1 column 2 (char 1)''))\<close>

text \<open>
  A line the validation loop handles without raising: blank once stripped, or not
  parsed by \<open>json.loads\<close>, or parsed to an object that lacks \<open>source\<close> or \<open>target\<close>
  or has strings for both.
\<close>

definition recoverable :: "(pystr \<Rightarrow> pystr + jvalue) \<Rightarrow> pystr \<Rightarrow> bool" where
  "recoverable loads raw \<longleftrightarrow>
     strip raw = [] \<or>
     (case loads (strip raw) of
        Inl msg \<Rightarrow> True
      | Inr (JObj kv) \<Rightarrow>
          (case (map_of kv source_key, map_of kv target_key) of
             (Some (JStr s), Some (JStr t)) \<Rightarrow> True
           | (Some v, Some w) \<Rightarrow> False
           | _ \<Rightarrow> True)
      | Inr _ \<Rightarrow> False)"




section \<open>Properties of the alignment validator\<close>

declare walk_target.simps [simp del]

declare consume_tail.simps [simp del]

lemma sent_br_unfold: "sent_br = [60, 115, 101, 110, 116, 95, 98, 114, 62]"
  by (simp add: sent_br_def str_def)



declare walk_rest.simps(2) [simp del]

lemma startswith_prefix:
  "t \<le> length tgt \<Longrightarrow> startswith tgt p t \<longleftrightarrow> prefix p (drop t tgt)"
  by (auto simp: startswith_def prefix_def min_def dest: arg_cong[where f=length])
     (metis append_eq_conv_conj)+

lemma walk_rest_length: "walk_rest src tgt = Some rest \<Longrightarrow> length rest \<le> length src"
proof (induction src tgt rule: walk_rest.induct)
  case (1 src)
  then show ?case by simp
next
  case (2 src c tgt)
  from "2.prems" show ?case
    using "2.IH" by (auto simp: walk_rest.simps(2) split: if_splits) 
qed

text \<open>
  The loop over indices and its list view agree on the source cursor: from a state
  within bounds, the loop ends with the cursor at the position where the list view's
  remainder starts, and fails exactly when the list view fails.
\<close>

lemma walk_target_cursor:
  "s \<le> length src \<Longrightarrow> t \<le> length tgt \<Longrightarrow>
   map_option fst (walk_target src tgt s t buf) =
     map_option (\<lambda>rest. length src - length rest) (walk_rest (drop s src) (drop t tgt))"
proof (induction src tgt s t buf rule: walk_target.induct)
  case (1 src tgt s t buf)
  show ?case
  proof (cases "t < length tgt")
    case False
    with "1.prems" have "t = length tgt" by simp
    then show ?thesis
      using "1.prems" by (subst walk_target.simps) simp
  next
    case True
    then have dt: "drop t tgt = tgt ! t # drop (Suc t) tgt"
      by (simp add: Cons_nth_drop_Suc)
    have sw: "startswith tgt sent_br t \<longleftrightarrow> prefix sent_br (tgt ! t # drop (Suc t) tgt)"
      using "1.prems" by (simp add: startswith_prefix dt)
    have hd_src: "s < length src \<Longrightarrow> drop s src = src ! s # drop (Suc s) src"
      by (simp add: Cons_nth_drop_Suc)
    show ?thesis
    proof (cases "startswith tgt sent_br t")
      case tok: True
      then have len: "t + length sent_br \<le> length tgt"
        by (auto simp: startswith_def dest: arg_cong[where f=length])
      have dd: "drop (length sent_br) (tgt ! t # drop (Suc t) tgt) = drop (t + length sent_br) tgt"
        by (metis dt drop_drop add.commute)
      show ?thesis
      proof (cases "s < length src \<and> src ! s = newline")
        case nl: True
        have step: "walk_target src tgt s t buf =
            walk_target src tgt (s + 1) (t + length sent_br) (buf @ [newline])"
          using True tok nl by (subst walk_target.simps) simp
        have rest: "walk_rest (drop s src) (drop t tgt) =
            walk_rest (drop (s + 1) src) (drop (t + length sent_br) tgt)"
          using tok sw nl by (simp add: dt hd_src walk_rest.simps(2) dd del: drop_Suc_Cons)
        show ?thesis
          unfolding step rest using "1.IH"(1)[OF True tok nl] nl len by simp
      next
        case nonl: False
        have step: "walk_target src tgt s t buf =
            walk_target src tgt s (t + length sent_br) buf"
          using True tok nonl by (subst walk_target.simps) auto
        have "(drop s src \<noteq> [] \<and> hd (drop s src) = newline) = False"
          using nonl by (auto simp: hd_drop_conv_nth)
        then have rest: "walk_rest (drop s src) (drop t tgt) =
            walk_rest (drop s src) (drop (t + length sent_br) tgt)"
          using tok sw by (simp only: dt walk_rest.simps(2) dd if_True if_False)
        show ?thesis
          unfolding step rest using "1.IH"(2)[OF True tok nonl] "1.prems" len by simp
      qed
    next
      case notok: False
      show ?thesis
      proof (cases "s < length src \<and> tgt ! t = src ! s")
        case False
        then have "walk_target src tgt s t buf = None"
          using True notok by (subst walk_target.simps) auto
        moreover have "walk_rest (drop s src) (drop t tgt) = None"
          using False notok sw "1.prems"
          by (auto simp: dt walk_rest.simps(2) hd_drop_conv_nth simp del: drop_Suc_Cons)
        ultimately show ?thesis by simp
      next
        case ok: True
        then have step: "walk_target src tgt s t buf =
            walk_target src tgt (s + 1) (t + 1) (buf @ [tgt ! t])"
          using True notok by (subst walk_target.simps) simp
        have rest: "walk_rest (drop s src) (drop t tgt) =
            walk_rest (drop (s + 1) src) (drop (t + 1) tgt)"
          using notok sw ok by (simp add: dt hd_src walk_rest.simps(2) del: drop_Suc_Cons)
        show ?thesis
          unfolding step rest using "1.IH"(3)[OF True notok] ok True by simp
      qed
    qed
  qed
qed

text \<open>
  The reconstruction buffer only ever receives the source characters the cursor passes:
  at the loop's exit it is the initial buffer followed by the consumed part of the source.
\<close>

lemma walk_target_buffer:
  "walk_target src tgt s t buf = Some (s', r) \<Longrightarrow> s \<le> length src \<Longrightarrow>
     s \<le> s' \<and> s' \<le> length src \<and> r = buf @ take (s' - s) (drop s src)"
proof (induction src tgt s t buf rule: walk_target.induct)
  case (1 src tgt s t buf)
  have take_step: "take (s' - s) (drop s src) = src ! s # take (s' - (s + 1)) (drop (s + 1) src)"
    if a: "s < length src" "s + 1 \<le> s'"
  proof -
    from a have "s' - s = Suc (s' - (s + 1))" by arith
    then show ?thesis using a by (simp add: Cons_nth_drop_Suc[symmetric])
  qed
  note w = "1.prems"(1)
  show ?case
  proof (cases "t < length tgt")
    case False
    then show ?thesis
      using w "1.prems"(2) by (subst (asm) walk_target.simps) simp
  next
    case True
    show ?thesis
    proof (cases "startswith tgt sent_br t")
      case tok: True
      show ?thesis
      proof (cases "s < length src \<and> src ! s = newline")
        case nl: True
        have "walk_target src tgt (s + 1) (t + length sent_br) (buf @ [newline]) = Some (s', r)"
          using w True tok nl by (subst (asm) walk_target.simps) simp
        from "1.IH"(1)[OF True tok nl this] nl
        have "s + 1 \<le> s' \<and> s' \<le> length src \<and>
          r = (buf @ [newline]) @ take (s' - (s + 1)) (drop (s + 1) src)" by simp
        then show ?thesis using take_step nl by simp
      next
        case nonl: False
        have "walk_target src tgt s (t + length sent_br) buf = Some (s', r)"
          using w True tok nonl by (subst (asm) walk_target.simps) auto
        from "1.IH"(2)[OF True tok nonl this "1.prems"(2)] show ?thesis .
      qed
    next
      case notok: False
      have ok: "\<not> length src \<le> s" "\<not> tgt ! t \<noteq> src ! s"
        using w True notok by (subst (asm) walk_target.simps, simp split: if_splits)+
      have "walk_target src tgt (s + 1) (t + 1) (buf @ [tgt ! t]) = Some (s', r)"
        using w True notok ok by (subst (asm) walk_target.simps) simp
      from "1.IH"(3)[OF True notok ok this] ok
      have "s + 1 \<le> s' \<and> s' \<le> length src \<and>
          r = (buf @ [tgt ! t]) @ take (s' - (s + 1)) (drop (s + 1) src)" by simp
      then show ?thesis using take_step ok by simp
    qed
  qed
qed

lemma consume_tail_iff: "consume_tail src s \<longleftrightarrow> (\<forall>c \<in> set (drop s src). c = newline)"
proof (induction src s rule: consume_tail.induct)
  case (1 src s)
  show ?case
  proof (cases "s < length src")
    case False
    then show ?thesis by (subst consume_tail.simps) simp
  next
    case True
    then have d: "drop s src = src ! s # drop (Suc s) src"
      by (simp add: Cons_nth_drop_Suc)
    show ?thesis
      using True "1.IH" by (subst consume_tail.simps) (auto simp: d simp del: drop_Suc_Cons)
  qed
qed

lemma manhattan_take: "manhattan_distance src (take k src) = 0 \<longleftrightarrow> length src \<le> k"
proof (cases "length src \<le> k")
  case True
  have "filter (\<lambda>(c1, c2). c1 \<noteq> c2) (zip src src) = []"
    by (auto simp: filter_empty_conv in_set_zip)
  with True show ?thesis by (simp add: manhattan_distance_def)
next
  case False
  then show ?thesis by (simp add: manhattan_distance_def min_def)
qed

text \<open>
  Hence the validator accepts exactly when the first loop consumes the whole space-free
  source: the second loop and the comparison of lengths together ask for an empty
  remainder.
\<close>

lemma validate_iff_rest:
  "validate source target \<longleftrightarrow>
     walk_rest (remove_spaces source) (remove_spaces target) = Some []"
proof -
  let ?src = "remove_spaces source" and ?tgt = "remove_spaces target"
  show ?thesis
  proof (cases "walk_target ?src ?tgt 0 0 []")
    case None
    then have "walk_rest ?src ?tgt = None"
      using walk_target_cursor[of 0 ?src 0 ?tgt "[]"] by simp
    with None show ?thesis by (simp add: validate_def)
  next
    case (Some p)
    obtain s' r where p: "p = (s', r)" by (cases p)
    from walk_target_buffer[OF Some[unfolded p]]
    have b: "s' \<le> length ?src" "r = take s' ?src" by simp_all
    from walk_target_cursor[of 0 ?src 0 ?tgt "[]"] Some p
    have "map_option (\<lambda>rest. length ?src - length rest) (walk_rest ?src ?tgt) = Some s'"
      by simp
    then obtain rest where rest: "walk_rest ?src ?tgt = Some rest" "s' = length ?src - length rest"
      by (cases "walk_rest ?src ?tgt") auto
    from walk_rest_length[OF rest(1)] have le: "length rest \<le> length ?src" .
    have "validate source target \<longleftrightarrow> consume_tail ?src s' \<and> length ?src \<le> s'"
      using Some p b by (auto simp: validate_def Let_def manhattan_take)
    also have "\<dots> \<longleftrightarrow> length ?src \<le> s'"
      by (auto simp: consume_tail_iff)
    also have "\<dots> \<longleftrightarrow> length rest = 0"
      using rest(2) le by arith
    also have "\<dots> \<longleftrightarrow> rest = []" by simp
    finally show ?thesis using rest(1) by simp
  qed
qed

lemma sent_br_Cons: "sent_br = 60 # [115, 101, 110, 116, 95, 98, 114, 62]"
  by (simp add: sent_br_unfold)

lemma sent_br_nonempty [simp]: "sent_br \<noteq> []" "length sent_br = 9"
  by (simp_all add: sent_br_unfold)

lemma walk_rest_no_token:
  "\<not> occurs_in sent_br tgt \<Longrightarrow>
     walk_rest src tgt = (if prefix tgt src then Some (drop (length tgt) src) else None)"
proof (induction tgt arbitrary: src)
  case Nil
  then show ?case by simp
next
  case (Cons c tgt)
  then have np: "\<not> prefix sent_br (c # tgt)" and nt: "\<not> occurs_in sent_br tgt" by simp_all
  show ?case
  proof (cases src)
    case Nil
    then show ?thesis using np by (simp add: walk_rest.simps(2))
  next
    case (Cons d src')
    then show ?thesis using np Cons.IH[OF nt, of src'] by (simp add: walk_rest.simps(2))
  qed
qed

lemma prefix_replace_newlines:
  "prefix p (replace_newlines xs) \<Longrightarrow> 60 \<notin> set p \<Longrightarrow> newline \<notin> set p \<Longrightarrow> prefix p xs"
proof (induction p arbitrary: xs)
  case Nil
  then show ?case by simp
next
  case (Cons a p)
  show ?case
  proof (cases xs)
    case Nil
    with Cons.prems show ?thesis by (simp add: replace_newlines_def)
  next
    case xs: (Cons c rest)
    show ?thesis
    proof (cases "c = newline")
      case True
      with Cons.prems xs show ?thesis
        by (simp add: replace_newlines_def sent_br_Cons)
    next
      case False
      with Cons.prems xs have "a = c" "prefix p (replace_newlines rest)"
        by (simp_all add: replace_newlines_def)
      with Cons.IH[of rest] Cons.prems xs show ?thesis by simp
    qed
  qed
qed

lemma token_in_replace_newlines:
  assumes "prefix sent_br (c # replace_newlines rest)" "c \<noteq> newline"
  shows "prefix sent_br (c # rest)"
proof -
  from assms(1) have c: "c = 60" and p: "prefix [115, 101, 110, 116, 95, 98, 114, 62] (replace_newlines rest)"
    by (simp_all add: sent_br_Cons)
  from prefix_replace_newlines[OF p] have "prefix [115, 101, 110, 116, 95, 98, 114, 62] rest"
    by (simp add: newline_def)
  with c show ?thesis by (simp add: sent_br_Cons)
qed

lemma walk_rest_replace_newlines:
  "\<not> occurs_in sent_br src \<Longrightarrow> walk_rest src (replace_newlines src) = Some []"
proof (induction src)
  case Nil
  then show ?case by (simp add: replace_newlines_def)
next
  case (Cons c src)
  then have np: "\<not> prefix sent_br (c # src)" and ih: "walk_rest src (replace_newlines src) = Some []"
    by simp_all
  show ?case
  proof (cases "c = newline")
    case True
    then have e: "replace_newlines (c # src) = 60 # ([115, 101, 110, 116, 95, 98, 114, 62] @ replace_newlines src)"
      by (simp add: replace_newlines_def sent_br_Cons)
    have p: "prefix sent_br (60 # ([115, 101, 110, 116, 95, 98, 114, 62] @ replace_newlines src))"
      by (simp add: sent_br_Cons)
    show ?thesis
      unfolding e using p True ih by (subst walk_rest.simps(2)) simp
  next
    case False
    then have e: "replace_newlines (c # src) = c # replace_newlines src"
      by (simp add: replace_newlines_def)
    have "\<not> prefix sent_br (c # replace_newlines src)"
      using token_in_replace_newlines[OF _ False] np by blast
    then show ?thesis
      unfolding e using ih by (subst walk_rest.simps(2)) simp
  qed
qed

lemma remove_spaces_replace_newlines:
  "space \<notin> set s \<Longrightarrow> remove_spaces (replace_newlines s) = replace_newlines s"
  by (induction s) (auto simp: remove_spaces_def replace_newlines_def sent_br_unfold space_def)

lemma remove_spaces_idem [simp]: "remove_spaces (remove_spaces s) = remove_spaces s"
  by (simp add: remove_spaces_def)

lemma space_notin_remove_spaces [simp]: "space \<notin> set (remove_spaces s)"
  by (simp add: remove_spaces_def)

lemma joins_token_iff:
  "joins_token pre post \<longleftrightarrow>
     (\<exists>i<length pre. prefix sent_br (drop i (pre @ post)) \<and> length pre < i + length sent_br)"
  by (auto simp: joins_token_def list_ex_iff)

lemma joins_token_drop:
  assumes "joins_token (drop k pre) x" shows "joins_token pre x"
proof -
  from assms obtain i where i: "i < length pre - k"
      "prefix sent_br (drop i (drop k pre @ x))" "length pre - k < i + length sent_br"
    by (auto simp: joins_token_iff)
  then have k: "k \<le> length pre" by simp
  then have "drop i (drop k pre @ x) = drop (i + k) (pre @ x)"
    by (simp add: add.commute)
  with i k show ?thesis
    unfolding joins_token_iff by (intro exI[of _ "i + k"]) auto
qed

text \<open>
  Walking a target \<open>pre @ x\<close> is walking \<open>pre\<close> and then \<open>x\<close>, unless a token straddles the
  join.
\<close>

lemma walk_rest_append:
  "\<not> joins_token pre x \<Longrightarrow>
     walk_rest src (pre @ x) = (case walk_rest src pre of None \<Rightarrow> None | Some rest \<Rightarrow> walk_rest rest x)"
proof (induction "length pre" arbitrary: pre src rule: less_induct)
  case less
  show ?case
  proof (cases pre)
    case Nil
    then show ?thesis by simp
  next
    case (Cons c pre')
    have nj': "\<not> joins_token (drop k pre) x" for k
      using less.prems joins_token_drop by blast
    show ?thesis
    proof (cases "prefix sent_br (c # pre' @ x)")
      case True
      have long: "length sent_br \<le> length pre"
      proof (rule ccontr)
        assume "\<not> length sent_br \<le> length pre"
        then have "joins_token pre x"
          unfolding joins_token_iff using True Cons by (intro exI[of _ 0]) auto
        with less.prems show False by simp
      qed
      then have p: "prefix sent_br (c # pre')"
        using True prefix_length_prefix[of sent_br "pre @ x" pre] Cons by simp
      have d: "drop (length sent_br) (c # pre' @ x) = drop (length sent_br) pre @ x"
        using long Cons by simp
      have d': "drop (length sent_br) (c # pre') = drop (length sent_br) pre"
        using Cons by simp
      have ih: "walk_rest s (drop (length sent_br) pre @ x) =
         (case walk_rest s (drop (length sent_br) pre) of None \<Rightarrow> None | Some rest \<Rightarrow> walk_rest rest x)" for s
      proof -
        have "length (drop (length sent_br) pre) < length pre" using Cons by simp
        from less.hyps[OF this nj'] show ?thesis .
      qed
      show ?thesis
        unfolding Cons append_Cons
        by (simp only: walk_rest.simps(2)[of src c "pre' @ x"] walk_rest.simps(2)[of src c pre']
              True p if_True d d' ih) simp
    next
      case False
      then have np: "\<not> prefix sent_br (c # pre')"
        by (metis append_Cons prefix_order.trans prefixI)
      have ih: "walk_rest s (pre' @ x) =
         (case walk_rest s pre' of None \<Rightarrow> None | Some rest \<Rightarrow> walk_rest rest x)" for s
      proof -
        have "length pre' < length pre" using Cons by simp
        moreover have "\<not> joins_token pre' x" using nj'[of 1] Cons by simp
        ultimately show ?thesis by (rule less.hyps)
      qed
      show ?thesis
        unfolding Cons append_Cons
        by (simp add: walk_rest.simps(2)[of src c "pre' @ x"] walk_rest.simps(2)[of src c pre']
              False np ih)
    qed
  qed
qed

lemma sent_br_inner: "0 < j \<Longrightarrow> j < length sent_br \<Longrightarrow> sent_br ! j \<noteq> 60"
proof -
  assume j: "0 < j" "j < length sent_br"
  then have "sent_br ! j = [115, 101, 110, 116, 95, 98, 114, 62] ! (j - 1)"
    by (cases j) (simp_all add: sent_br_Cons)
  moreover have "[115, 101, 110, 116, 95, 98, 114, 62] ! (j - 1) \<in> set [115, 101, 110, 116, 95, 98, 114, 62::nat]"
    using j by (intro nth_mem) simp
  ultimately show ?thesis by auto
qed

lemma no_join_before_token: "\<not> joins_token pre (sent_br @ post)"
proof
  assume "joins_token pre (sent_br @ post)"
  then obtain i where i: "i < length pre" "prefix sent_br (drop i (pre @ sent_br @ post))"
      "length pre < i + length sent_br"
    by (auto simp: joins_token_iff)
  let ?j = "length pre - i"
  have j: "0 < ?j" "?j < length sent_br" using i by auto
  from i(2) obtain zs where zs: "drop i (pre @ sent_br @ post) = sent_br @ zs"
    by (auto simp: prefix_def)
  have "drop i (pre @ sent_br @ post) ! ?j = (pre @ sent_br @ post) ! (i + ?j)"
    by (rule nth_drop) (use i in simp)
  also have "\<dots> = (pre @ sent_br @ post) ! length pre"
    using i by simp
  also have "\<dots> = 60" by (simp add: nth_append sent_br_Cons)
  finally have "(sent_br @ zs) ! ?j = 60" using zs by simp
  then have "sent_br ! ?j = 60" using j by (simp add: nth_append)
  with sent_br_inner[OF j] show False by simp
qed


lemma walk_rest_suffix: "walk_rest src tgt = Some rest \<Longrightarrow> suffix rest src"
proof (induction src tgt rule: walk_rest.induct)
  case (1 src)
  then show ?case by simp
next
  case (2 src c tgt)
  have "suffix (tl src) src" by (cases src) (simp_all add: suffix_Cons)
  with "2.prems" "2.IH" show ?case
    by (auto simp: walk_rest.simps(2) split: if_splits intro: suffix_order.trans)
qed


lemma remove_spaces_append [simp]: "remove_spaces (a @ b) = remove_spaces a @ remove_spaces b"
  by (simp add: remove_spaces_def)

lemma remove_spaces_sent_br [simp]: "remove_spaces sent_br = sent_br"
  by (simp add: remove_spaces_def sent_br_unfold space_def)

lemma validate_no_token:
  "\<not> occurs_in sent_br (remove_spaces target) \<Longrightarrow>
     validate source target \<longleftrightarrow> remove_spaces source = remove_spaces target"
  by (auto simp: validate_iff_rest walk_rest_no_token prefix_def)

text \<open>
  Claim C3, as amended. When the target, after its spaces are removed, has no occurrence
  of the token \<open><sent_br>\<close>, \<open>validate source target\<close> is true exactly when source
  and target are the same string after removing the spaces of each. The condition is on
  the space-free target, the string the loop scans.
\<close>

theorem validate_token_free_iff:
  assumes "\<not> occurs_in sent_br (remove_spaces target)"
  shows "validate source target \<longleftrightarrow> remove_spaces source = remove_spaces target"
  using assms by (rule validate_no_token)

theorem validate_token_free_iff_witness:
  "\<not> occurs_in sent_br (remove_spaces (str ''a b c'')) \<and>
   (validate (str ''ab c'') (str ''a b c'') \<longleftrightarrow>
      remove_spaces (str ''ab c'') = remove_spaces (str ''a b c''))"
proof -
  have h: "\<not> occurs_in sent_br (remove_spaces (str ''a b c''))" by code_simp
  from validate_token_free_iff[OF h] h show ?thesis by simp
qed

text \<open>
  The claim as stated, with the condition on the target itself, fails: the target
  \<open>"<sent _br>"\<close> has no occurrence of the token, equals the source \<open>"<sent_br>"\<close> once
  the space is removed, and is rejected.
\<close>

theorem validate_token_free_counterexample:
  "\<not> occurs_in sent_br (str ''<sent _br>'') \<and>
   remove_spaces (str ''<sent_br>'') = remove_spaces (str ''<sent _br>'') \<and>
   \<not> validate (str ''<sent_br>'') (str ''<sent _br>'')"
  by code_simp

lemma walk_target_result:
  assumes "walk_rest src tgt = Some rest"
  shows "walk_target src tgt 0 0 [] =
     Some (length src - length rest, take (length src - length rest) src)"
proof -
  from walk_target_cursor[of 0 src 0 tgt "[]"] assms
  have "map_option fst (walk_target src tgt 0 0 []) = Some (length src - length rest)" by simp
  then obtain r where r: "walk_target src tgt 0 0 [] = Some (length src - length rest, r)"
    by (cases "walk_target src tgt 0 0 []") auto
  from walk_target_buffer[OF r] have "r = take (length src - length rest) src" by simp
  with r show ?thesis by simp
qed

text \<open>
  Claim C1, as amended. When the space-free target has no token and the space-free
  source is that target followed by one or more newlines, the first loop ends at the
  end of the target with the target as its buffer and the second loop consumes the
  trailing newlines without failing; but the buffer is then shorter than the source,
  \<open>manhattan_distance\<close> is \<open>-1\<close>, and \<open>validate\<close> returns false.
\<close>

theorem trailing_newlines_rejected:
  assumes "\<not> occurs_in sent_br (remove_spaces target)"
    and "remove_spaces source = remove_spaces target @ replicate k newline"
    and "0 < k"
  shows "walk_target (remove_spaces source) (remove_spaces target) 0 0 [] =
           Some (length (remove_spaces target), remove_spaces target) \<and>
         consume_tail (remove_spaces source) (length (remove_spaces target)) \<and>
         manhattan_distance (remove_spaces source) (remove_spaces target) = - 1 \<and>
         \<not> validate source target"
proof -
  let ?src = "remove_spaces source" and ?tgt = "remove_spaces target"
  have rest: "walk_rest ?src ?tgt = Some (replicate k newline)"
    using assms(1,2) by (simp add: walk_rest_no_token)
  from walk_target_result[OF rest]
  have w: "walk_target ?src ?tgt 0 0 [] = Some (length ?tgt, ?tgt)"
    using assms(2) by simp
  have c: "consume_tail ?src (length ?tgt)"
    using assms(2) by (simp add: consume_tail_iff)
  have m: "manhattan_distance ?src ?tgt = - 1"
    using assms(2,3) by (simp add: manhattan_distance_def)
  have v: "\<not> validate source target"
    using rest assms(3) by (simp add: validate_iff_rest)
  from w c m v show ?thesis by simp
qed

theorem trailing_newlines_rejected_witness:
  "\<not> occurs_in sent_br (remove_spaces (str ''a b'')) \<and>
   remove_spaces (str ''ab'' @ [newline, newline]) = remove_spaces (str ''a b'') @ replicate 2 newline \<and>
   \<not> validate (str ''ab'' @ [newline, newline]) (str ''a b'')"
proof -
  have h1: "\<not> occurs_in sent_br (remove_spaces (str ''a b''))" by code_simp
  have h2: "remove_spaces (str ''ab'' @ [newline, newline]) =
      remove_spaces (str ''a b'') @ replicate 2 newline" by code_simp
  have h3: "0 < (2::nat)" by simp
  from trailing_newlines_rejected[OF h1 h2 h3] h1 h2 show ?thesis by simp
qed

text \<open>
  The claim as stated, that such a pair validates, fails at source \<open>"a\n"\<close> and target
  \<open>"a"\<close>.
\<close>

theorem trailing_newline_counterexample:
  "\<not> occurs_in sent_br (str ''a'') \<and>
   remove_spaces (str ''a'' @ [newline]) = remove_spaces (str ''a'') @ [newline] \<and>
   \<not> validate (str ''a'' @ [newline]) (str ''a'')"
  by code_simp

text \<open>
  Claim C6, as amended. For every source \<open>S\<close> whose space-free form has no occurrence
  of the text \<open><sent_br>\<close> itself, the target built from the space-free \<open>S\<close> by
  replacing every newline with the token validates against \<open>S\<close>.
\<close>

theorem validate_replaced_newlines:
  assumes "\<not> occurs_in sent_br (remove_spaces S)"
  shows "validate S (replace_newlines (remove_spaces S))"
  using assms
  by (simp add: validate_iff_rest remove_spaces_replace_newlines walk_rest_replace_newlines)

theorem validate_replaced_newlines_witness:
  "\<not> occurs_in sent_br (remove_spaces (str ''a b'' @ [newline] @ str ''c'' @ [newline])) \<and>
   replace_newlines (remove_spaces (str ''a b'' @ [newline] @ str ''c'' @ [newline])) =
     str ''ab<sent_br>c<sent_br>'' \<and>
   validate (str ''a b'' @ [newline] @ str ''c'' @ [newline]) (str ''ab<sent_br>c<sent_br>'')"
proof -
  let ?S = "str ''a b'' @ [newline] @ str ''c'' @ [newline]"
  have h: "\<not> occurs_in sent_br (remove_spaces ?S)" by code_simp
  have e: "replace_newlines (remove_spaces ?S) = str ''ab<sent_br>c<sent_br>''" by code_simp
  from validate_replaced_newlines[OF h] h e show ?thesis by simp
qed

text \<open>
  The claim as stated, for every source, fails at the source \<open>"<sent_br>"\<close>: it has no
  newline, the target built from it is \<open>"<sent_br>"\<close>, the loop drops that as a token and
  the source is left unmatched.
\<close>

theorem validate_replaced_newlines_counterexample:
  "replace_newlines (remove_spaces (str ''<sent_br>'')) = str ''<sent_br>'' \<and>
   \<not> validate (str ''<sent_br>'') (replace_newlines (remove_spaces (str ''<sent_br>'')))"
  by code_simp

text \<open>
  The source cursor of a token: when the walk over the part \<open>pre\<close> of the target before
  a token ends with cursor \<open>s\<close> and buffer \<open>r\<close>, the walk over the whole target passes
  through the state with target cursor \<open>length pre\<close>, source cursor \<open>s\<close> and buffer \<open>r\<close>.
\<close>

lemma walk_target_reaches_token:
  assumes w: "walk_target src pre 0 0 [] = Some (s, r)"
  shows "walk_target src (pre @ sent_br @ post) 0 0 [] =
         walk_target src (pre @ sent_br @ post) s (length pre) r"
proof -
  let ?T = "pre @ sent_br @ post"
  let ?f = "\<lambda>rest. length src - length rest"
  from walk_target_buffer[OF w] have r: "r = take s src" and s_le: "s \<le> length src" by simp_all
  from walk_target_cursor[of 0 src 0 pre "[]"] w
  have "map_option ?f (walk_rest src pre) = Some s" by simp
  then obtain rest where rest: "walk_rest src pre = Some rest" "s = length src - length rest"
    by (cases "walk_rest src pre") auto
  from walk_rest_suffix[OF rest(1)] have d: "drop s src = rest"
    unfolding rest(2) by (auto simp: suffix_def)
  have L: "map_option fst (walk_target src ?T 0 0 []) = map_option ?f (walk_rest rest (sent_br @ post))"
    using walk_target_cursor[of 0 src 0 ?T "[]"] rest(1)
    by (simp add: walk_rest_append no_join_before_token)
  have R: "map_option fst (walk_target src ?T s (length pre) r) =
      map_option ?f (walk_rest rest (sent_br @ post))"
    using walk_target_cursor[of s src "length pre" ?T r] s_le d by simp
  show ?thesis
  proof (cases "walk_target src ?T 0 0 []")
    case None
    with L R show ?thesis by (cases "walk_target src ?T s (length pre) r") auto
  next
    case (Some p)
    obtain s' b where p: "p = (s', b)" by (cases p)
    from L R have "map_option fst (walk_target src ?T s (length pre) r) =
        map_option fst (walk_target src ?T 0 0 [])" by simp
    with Some p have "map_option fst (walk_target src ?T s (length pre) r) = Some s'" by simp
    then obtain b' where b': "walk_target src ?T s (length pre) r = Some (s', b')"
      by (cases "walk_target src ?T s (length pre) r") auto
    from walk_target_buffer[OF Some[unfolded p]] have b: "b = take s' src" by simp
    from walk_target_buffer[OF b' s_le] have "s \<le> s'" "b' = r @ take (s' - s) (drop s src)"
      by simp_all
    then have "b' = take s' src"
      unfolding r by (metis le_add_diff_inverse take_add)
    with b b' Some p show ?thesis by simp
  qed
qed




section \<open>Properties of the deduplicator and the runner\<close>

text \<open>
  The loop of \<open>create_deduplicated_chunk\<close> depends on \<open>start_idx + idx\<close> only, extends its
  accumulators, and splits over an appended chunk.
\<close>

lemma dedup_loop_shift:
  "dedup_loop sketch start_idx idx chunk st u d = dedup_loop sketch (start_idx + idx) 0 chunk st u d"
proof (induction chunk arbitrary: start_idx idx st u d)
  case Nil
  show ?case by simp
next
  case (Cons entry chunk)
  have a: "dedup_loop sketch start_idx (idx + 1) chunk st' u' d' =
        dedup_loop sketch (start_idx + idx) (0 + 1) chunk st' u' d'" for st' u' d'
    using Cons.IH[of start_idx "idx + 1"] Cons.IH[of "start_idx + idx" 1] by (simp add: add.assoc)
  show ?case
    by (simp only: dedup_loop.simps a add_0_right)
qed

lemma dedup_loop_acc:
  "dedup_loop sketch start_idx idx chunk st u d =
     (case dedup_loop sketch start_idx idx chunk st [] [] of
        Inl e \<Rightarrow> Inl e
      | Inr (u', d', st') \<Rightarrow> Inr (u @ u', d @ d', st'))"
proof (induction chunk arbitrary: idx st u d)
  case Nil
  show ?case by simp
next
  case (Cons entry chunk)
  note ih = Cons.IH[of "idx + 1"]
  show ?case
    apply (simp only: dedup_loop.simps)
    apply (subst ih)
    apply (subst (2) ih)
    apply (subst (3) ih)
    apply (subst (4) ih)
    apply (auto split: sum.splits prod.splits)
    done
qed

lemma dedup_loop_append:
  "dedup_loop sketch start_idx idx (xs @ ys) st u d =
     (case dedup_loop sketch start_idx idx xs st u d of
        Inl e \<Rightarrow> Inl e
      | Inr (u', d', st') \<Rightarrow> dedup_loop sketch start_idx (idx + length xs) ys st' u' d')"
proof (induction xs arbitrary: idx st u d)
  case Nil
  show ?case by simp
next
  case (Cons entry xs)
  have l: "idx + 1 + length xs = idx + length (entry # xs)" by simp
  show ?case
    by (simp only: append_Cons dedup_loop.simps Cons.IH l)
       (simp split: sum.splits)
qed

lemma create_deduplicated_chunk_append:
  "create_deduplicated_chunk sketch (xs @ ys) start_idx st =
     (case create_deduplicated_chunk sketch xs start_idx st of
        Inl e \<Rightarrow> Inl e
      | Inr (u, d, st') \<Rightarrow>
          (case create_deduplicated_chunk sketch ys (start_idx + length xs) st' of
             Inl e \<Rightarrow> Inl e
           | Inr (u', d', st'') \<Rightarrow> Inr (u @ u', d @ d', st'')))"
proof -
  have "dedup_loop sketch start_idx (0 + length xs) ys st' u d =
      (case dedup_loop sketch (start_idx + length xs) 0 ys st' [] [] of
         Inl e \<Rightarrow> Inl e
       | Inr (u', d', st'') \<Rightarrow> Inr (u @ u', d @ d', st''))" for st' u d
    by (subst dedup_loop_shift, subst dedup_loop_acc) simp
  then show ?thesis
    unfolding create_deduplicated_chunk_def dedup_loop_append
    by (simp split: sum.splits)
qed

lemma create_deduplicated_chunk_Nil [simp]:
  "create_deduplicated_chunk sketch [] start_idx st = Inr ([], [], st)"
  by (simp add: create_deduplicated_chunk_def)

lemma run_batches_concat:
  "run_batches sketch batches start_idx st =
     create_deduplicated_chunk sketch (concat batches) start_idx st"
proof (induction batches arbitrary: start_idx st)
  case Nil
  show ?case by simp
next
  case (Cons chunk batches)
  show ?case
    by (simp add: create_deduplicated_chunk_append Cons.IH split: sum.splits)
qed

lemma dedup_loop_length:
  "dedup_loop sketch start_idx idx chunk st u d = Inr (u', d', st') \<Longrightarrow>
     length u' + length d' = length u + length d + length chunk"
proof (induction chunk arbitrary: idx st u d)
  case Nil
  then show ?case by simp
next
  case (Cons entry chunk)
  from Cons.prems show ?case
    by (auto simp: split: sum.splits if_splits dest!: Cons.IH)
qed

lemma create_deduplicated_chunk_length:
  "create_deduplicated_chunk sketch chunk start_idx st = Inr (u, d, st') \<Longrightarrow>
     length u + length d = length chunk"
  by (auto simp: create_deduplicated_chunk_def dest: dedup_loop_length)

lemma has_source_textE:
  assumes "has_source_text entry"
  obtains kv s where "entry = JObj kv" "map_of kv source_key = Some (JStr s)"
    "list_all utf8_encodable (split_newline s)"
proof (cases entry)
  case (JObj kv)
  with assms that show ?thesis
    by (auto simp: has_source_text_def split: option.splits jvalue.splits)
qed (use assms in \<open>simp_all add: has_source_text_def\<close>)

lemma has_source_text_minhash:
  assumes "has_source_text entry"
  obtains src where "getitem entry source_key = Inr src"
    "make_minhash sketch src = Inr (sketch (source_paragraphs entry))"
proof -
  from assms obtain kv s where e: "entry = JObj kv" "map_of kv source_key = Some (JStr s)"
    "list_all utf8_encodable (split_newline s)" by (rule has_source_textE)
  then have "getitem entry source_key = Inr (JStr s)"
    "make_minhash sketch (JStr s) = Inr (sketch (source_paragraphs entry))"
    by (simp_all add: make_minhash_def source_paragraphs_def)
  then show ?thesis by (rule that)
qed

lemma well_formed_record_fields:
  assumes "well_formed_record entry"
  obtains src tgt fname where "getitem entry source_key = Inr src"
    "make_minhash sketch src = Inr (sketch (source_paragraphs entry))"
    "getitem entry target_key = Inr tgt" "dict_get entry filename_key = Inr fname"
    "emitted entry = build_entry src tgt fname"
proof -
  from assms have h: "has_source_text entry" by (simp add: well_formed_record_def)
  from h obtain kv s where kv: "entry = JObj kv" by (rule has_source_textE)
  from h obtain src where s: "getitem entry source_key = Inr src"
    "make_minhash sketch src = Inr (sketch (source_paragraphs entry))"
    by (rule has_source_text_minhash)
  from assms obtain tgt where t: "getitem entry target_key = Inr tgt"
    by (auto simp: well_formed_record_def split: sum.splits)
  from kv obtain fname where f: "dict_get entry filename_key = Inr fname"
    by (cases "map_of kv filename_key") auto
  have "emitted entry = build_entry src tgt fname"
    using s(1) t f by (simp add: emitted_def)
  with s t f show ?thesis by (rule that)
qed

lemma lsh_insert_fresh:
  "\<forall>k \<in> fst ` set ix. k < key \<Longrightarrow> lsh_insert ix key m = Inr (ix @ [(key, m)])"
  by (auto simp: lsh_insert_def)

text \<open>
  No exception on well-formed records when every key in the index is below the ids
  still to be issued.
\<close>

lemma dedup_loop_total:
  assumes "list_all well_formed_record chunk"
    and "\<forall>k \<in> fst ` set (lsh st). k < start_idx + idx"
  shows "\<exists>u' d' st'. dedup_loop sketch start_idx idx chunk st u d = Inr (u', d', st')"
  using assms
proof (induction chunk arbitrary: idx st u d)
  case Nil
  show ?case by simp
next
  case (Cons entry chunk)
  from Cons.prems(1) have wf: "well_formed_record entry" and rest: "list_all well_formed_record chunk"
    by simp_all
  from wf obtain src tgt fname where f: "getitem entry source_key = Inr src"
    "make_minhash sketch src = Inr (sketch (source_paragraphs entry))"
    "getitem entry target_key = Inr tgt" "dict_get entry filename_key = Inr fname"
    by (rule well_formed_record_fields)
  let ?m = "sketch (source_paragraphs entry)"
  show ?case
  proof (cases "lsh_query (lsh st) ?m = []")
    case True
    have ins: "lsh_insert (lsh st) (start_idx + idx) ?m = Inr (lsh st @ [(start_idx + idx, ?m)])"
      using Cons.prems(2) by (rule lsh_insert_fresh)
    let ?st = "\<lparr>lsh = lsh st @ [(start_idx + idx, ?m)],
                minhashes = (minhashes st)(start_idx + idx \<mapsto> ?m)\<rparr>"
    have "\<forall>k \<in> fst ` set (lsh ?st). k < start_idx + (idx + 1)"
      using Cons.prems(2) by auto
    from Cons.IH[OF rest this] show ?thesis
      using f True ins by simp
  next
    case False
    have "\<forall>k \<in> fst ` set (lsh st). k < start_idx + (idx + 1)"
      using Cons.prems(2) by auto
    from Cons.IH[OF rest this] show ?thesis
      using f False by simp
  qed
qed

lemma create_deduplicated_chunk_total:
  assumes "list_all well_formed_record chunk"
    and "\<forall>k \<in> fst ` set (lsh st). k < start_idx"
  shows "\<exists>u d st'. create_deduplicated_chunk sketch chunk start_idx st = Inr (u, d, st')"
  unfolding create_deduplicated_chunk_def
  using assms by (intro dedup_loop_total) simp_all

lemma replay_eq:
  assumes "list_all has_source_text entries"
    and "\<forall>k \<in> fst ` set (lsh st). k < idx"
  shows "\<exists>st'. replay sketch idx entries st = Inr st' \<and>
     lsh st' = lsh st @ zip [idx..<idx + length entries]
                            (map (\<lambda>e. sketch (source_paragraphs e)) entries)"
  using assms
proof (induction entries arbitrary: idx st)
  case Nil
  show ?case by simp
next
  case (Cons entry entries)
  from Cons.prems(1) have h: "has_source_text entry" and rest: "list_all has_source_text entries"
    by simp_all
  from h obtain src where f: "getitem entry source_key = Inr src"
    "make_minhash sketch src = Inr (sketch (source_paragraphs entry))"
    by (rule has_source_text_minhash)
  let ?m = "sketch (source_paragraphs entry)"
  let ?st = "\<lparr>lsh = lsh st @ [(idx, ?m)], minhashes = (minhashes st)(idx \<mapsto> ?m)\<rparr>"
  have ins: "lsh_insert (lsh st) idx ?m = Inr (lsh st @ [(idx, ?m)])"
    using Cons.prems(2) by (rule lsh_insert_fresh)
  have "\<forall>k \<in> fst ` set (lsh ?st). k < idx + 1"
    using Cons.prems(2) by auto
  from Cons.IH[OF rest this] obtain st' where st': "replay sketch (idx + 1) entries ?st = Inr st'"
    "lsh st' = lsh ?st @ zip [idx + 1..<idx + 1 + length entries]
                            (map (\<lambda>e. sketch (source_paragraphs e)) entries)"
    by blast
  have "idx < idx + length (entry # entries)" by simp
  from upt_conv_Cons[OF this]
  have "[idx..<idx + length (entry # entries)] = idx # [idx + 1..<idx + 1 + length entries]"
    by simp
  with st' f ins show ?case by simp
qed

text \<open>
  The batch loop from batch \<open>b\<close> on is one pass of \<open>create_deduplicated_chunk\<close> over the
  records from \<open>b * chunk_size\<close> on: the checkpoints only move entries from the buffers
  to the files, and the last batch always writes them.
\<close>

lemma total_batches_less_iff:
  assumes "0 < (cs::nat)"
  shows "b < n div cs + (if n mod cs > 0 then 1 else 0) \<longleftrightarrow> b * cs < n"
proof (cases "n mod cs > 0")
  case True
  have "b < n div cs + 1 \<longleftrightarrow> b \<le> n div cs" by auto
  also have "\<dots> \<longleftrightarrow> b * cs \<le> n"
    using assms by (simp add: less_eq_div_iff_mult_less_eq)
  also have "\<dots> \<longleftrightarrow> b * cs < n"
  proof -
    have "b * cs \<noteq> n" using True by auto
    then show ?thesis by auto
  qed
  finally show ?thesis using True by simp
next
  case False
  then have "n = (n div cs) * cs" using div_mult_mod_eq[of n cs] by simp
  then have "b * cs < n \<longleftrightarrow> b * cs < (n div cs) * cs" by simp
  also have "\<dots> \<longleftrightarrow> b < n div cs" using assms by simp
  finally show ?thesis using False by simp
qed

lemma batch_slice:
  "take (min (b * cs + cs) (length data) - b * cs) (drop (b * cs) data) = take cs (drop (b * cs) data)"
  by (cases "b * cs + cs \<le> length data") (simp_all add: min_def)

lemma batch_loop_eq:
  assumes cs: "0 < cs" and ci: "0 < ci"
    and tb: "tb = length data div cs + (if length data mod cs > 0 then 1 else 0)"
  shows "b < tb \<Longrightarrow> output_file rs = Some out \<Longrightarrow> duplicates_output_file rs = Some dup \<Longrightarrow>
    batch_loop sketch data cs ci tb [b..<tb] rs =
      (case create_deduplicated_chunk sketch (drop (b * cs) data) (b * cs) (index rs) of
         Inl e \<Rightarrow> Inl e
       | Inr (u, d, st) \<Rightarrow>
           Inr \<lparr>index = st,
                output_file = Some (out @ deduplicated_entries rs @ u),
                duplicates_output_file = Some (dup @ duplicate_entries rs @ d),
                deduplicated_entries = [], duplicate_entries = []\<rparr>)"
proof (induction "tb - b" arbitrary: b rs out dup)
  case 0
  then show ?case by simp
next
  case (Suc k)
  let ?chunk = "take cs (drop (b * cs) data)"
  let ?rest = "drop (Suc b * cs) data"
  have upt: "[b..<tb] = b # [Suc b..<tb]"
    using Suc.prems(1) by (simp add: upt_conv_Cons)
  have "drop cs (drop (b * cs) data) = ?rest"
    by (simp add: add.commute)
  then have split: "drop (b * cs) data = ?chunk @ ?rest"
    by (metis append_take_drop_id)
  have step: "batch_loop sketch data cs ci tb (b # [Suc b..<tb]) rs =
      (case create_deduplicated_chunk sketch ?chunk (b * cs) (index rs) of
         Inl e \<Rightarrow> Inl e
       | Inr (u, d, st) \<Rightarrow>
           if (b + 1) mod ci = 0 \<or> b = tb - 1 then
             batch_loop sketch data cs ci tb [Suc b..<tb]
               \<lparr>index = st,
                output_file = Some (out @ deduplicated_entries rs @ u),
                duplicates_output_file = Some (dup @ duplicate_entries rs @ d),
                deduplicated_entries = [], duplicate_entries = []\<rparr>
           else
             batch_loop sketch data cs ci tb [Suc b..<tb]
               \<lparr>index = st,
                output_file = Some out,
                duplicates_output_file = Some dup,
                deduplicated_entries = deduplicated_entries rs @ u,
                duplicate_entries = duplicate_entries rs @ d\<rparr>)"
    using ci Suc.prems(2,3)
    by (simp add: batch_slice save_checkpoint_def Let_def split: sum.splits prod.splits)
  show ?case
  proof (cases "create_deduplicated_chunk sketch ?chunk (b * cs) (index rs)")
    case (Inl e)
    then show ?thesis
      unfolding upt step by (subst split) (simp add: create_deduplicated_chunk_append)
  next
    case (Inr res)
    obtain u d st where res: "res = (u, d, st)" by (cases res)
    note c = Inr[unfolded res]
    show ?thesis
    proof (cases "Suc b < tb")
      case True
      then have "Suc b * cs < length data"
        using total_batches_less_iff[OF cs, of "Suc b" "length data"] tb by simp
      then have len: "length ?chunk = cs" by simp
      have k: "k = tb - Suc b" using Suc.hyps(2) by simp
      have ne: "b \<noteq> tb - 1" using True by simp
      have start: "b * cs + length ?chunk = Suc b * cs" using len by simp
      have full: "create_deduplicated_chunk sketch (drop (b * cs) data) (b * cs) (index rs) =
          (case create_deduplicated_chunk sketch ?rest (Suc b * cs) st of
             Inl e \<Rightarrow> Inl e
           | Inr (u', d', st') \<Rightarrow> Inr (u @ u', d @ d', st'))"
        by (subst split) (simp only: create_deduplicated_chunk_append c start sum.case prod.case)
      show ?thesis
      proof (cases "(b + 1) mod ci = 0")
        case cp: True
        let ?rs = "\<lparr>index = st,
                output_file = Some (out @ deduplicated_entries rs @ u),
                duplicates_output_file = Some (dup @ duplicate_entries rs @ d),
                deduplicated_entries = [], duplicate_entries = []\<rparr>"
        have "batch_loop sketch data cs ci tb [b..<tb] rs =
            batch_loop sketch data cs ci tb [Suc b..<tb] ?rs"
          unfolding upt step using c cp by simp
        also have "\<dots> = (case create_deduplicated_chunk sketch ?rest (Suc b * cs) st of
             Inl e \<Rightarrow> Inl e
           | Inr (u', d', st') \<Rightarrow>
               Inr \<lparr>index = st',
                    output_file = Some ((out @ deduplicated_entries rs @ u) @ [] @ u'),
                    duplicates_output_file = Some ((dup @ duplicate_entries rs @ d) @ [] @ d'),
                    deduplicated_entries = [], duplicate_entries = []\<rparr>)"
          using Suc.hyps(1)[OF k True, where rs = ?rs
              and out = "out @ deduplicated_entries rs @ u"
              and dup = "dup @ duplicate_entries rs @ d"]
          by (cases "create_deduplicated_chunk sketch ?rest (Suc b * cs) st") auto
        finally show ?thesis
          by (simp add: full split: sum.splits)
      next
        case nocp: False
        let ?rs = "\<lparr>index = st,
                output_file = Some out,
                duplicates_output_file = Some dup,
                deduplicated_entries = deduplicated_entries rs @ u,
                duplicate_entries = duplicate_entries rs @ d\<rparr>"
        have "batch_loop sketch data cs ci tb [b..<tb] rs =
            batch_loop sketch data cs ci tb [Suc b..<tb] ?rs"
          unfolding upt step using c nocp ne by simp
        also have "\<dots> = (case create_deduplicated_chunk sketch ?rest (Suc b * cs) st of
             Inl e \<Rightarrow> Inl e
           | Inr (u', d', st') \<Rightarrow>
               Inr \<lparr>index = st',
                    output_file = Some (out @ (deduplicated_entries rs @ u) @ u'),
                    duplicates_output_file = Some (dup @ (duplicate_entries rs @ d) @ d'),
                    deduplicated_entries = [], duplicate_entries = []\<rparr>)"
          using Suc.hyps(1)[OF k True, where rs = ?rs and out = out and dup = dup]
          by (cases "create_deduplicated_chunk sketch ?rest (Suc b * cs) st") auto
        finally show ?thesis
          by (simp add: full split: sum.splits)
      qed
    next
      case False
      with Suc.prems(1) have last: "Suc b = tb" by simp
      then have "\<not> Suc b * cs < length data"
        using total_batches_less_iff[OF cs, of "Suc b" "length data"] tb by simp
      then have rest: "?rest = []" by simp
      have "batch_loop sketch data cs ci tb [b..<tb] rs =
          Inr \<lparr>index = st,
                output_file = Some (out @ deduplicated_entries rs @ u),
                duplicates_output_file = Some (dup @ duplicate_entries rs @ d),
                deduplicated_entries = [], duplicate_entries = []\<rparr>"
        unfolding upt step using c last by auto
      moreover have "create_deduplicated_chunk sketch (drop (b * cs) data) (b * cs) (index rs) =
          Inr (u, d, st)"
        by (subst split)
           (simp only: create_deduplicated_chunk_append c rest create_deduplicated_chunk_Nil
              sum.case prod.case append_Nil2)
      ultimately show ?thesis by simp
    qed
  qed
qed

lemma run_from_batch:
  assumes cs: "0 < cs" and ci: "0 < ci"
    and tb: "tb = length data div cs + (if length data mod cs > 0 then 1 else 0)"
  shows "batch_loop sketch data cs ci tb [pb..<tb]
           \<lparr>index = st, output_file = Some out, duplicates_output_file = Some dup,
            deduplicated_entries = [], duplicate_entries = []\<rparr> =
      (case create_deduplicated_chunk sketch (drop (pb * cs) data) (pb * cs) st of
         Inl e \<Rightarrow> Inl e
       | Inr (u, d, st') \<Rightarrow>
           Inr \<lparr>index = st', output_file = Some (out @ u), duplicates_output_file = Some (dup @ d),
                deduplicated_entries = [], duplicate_entries = []\<rparr>)"
proof (cases "pb < tb")
  case True
  from batch_loop_eq[OF cs ci tb True, where out = out and dup = dup and
      rs = "\<lparr>index = st, output_file = Some out, duplicates_output_file = Some dup,
            deduplicated_entries = [], duplicate_entries = []\<rparr>" and sketch = sketch]
  show ?thesis
    by (cases "create_deduplicated_chunk sketch (drop (pb * cs) data) (pb * cs) st") auto
next
  case False
  then have "\<not> pb * cs < length data"
    using total_batches_less_iff[OF cs, of pb "length data"] tb by simp
  then have "drop (pb * cs) data = []" by simp
  with False show ?thesis by simp
qed

text \<open>
  The whole run, started without both files and resumed from both.
\<close>

lemma process_in_batches_fresh:
  assumes cs: "0 < cs" and ci: "0 < ci" and fresh: "out = None \<or> dup = None"
  shows "process_in_batches sketch data out dup cs ci =
     (case create_deduplicated_chunk sketch data 0 empty_index of
        Inl e \<Rightarrow> Inl e
      | Inr (u, d, st) \<Rightarrow> Inr (u, d))"
proof -
  have r: "resume_state sketch cs out dup =
      Inr (0, \<lparr>index = empty_index, output_file = Some [], duplicates_output_file = Some [],
               deduplicated_entries = [], duplicate_entries = []\<rparr>)"
    using fresh by (auto simp: resume_state_def save_checkpoint_def split: option.splits)
  show ?thesis
    unfolding process_in_batches_def Let_def r
    using cs run_from_batch[OF cs ci refl, of sketch data 0 empty_index "[]" "[]"]
    by (cases "create_deduplicated_chunk sketch data 0 empty_index") auto
qed

lemma process_in_batches_resumed:
  assumes cs: "0 < cs" and ci: "0 < ci"
  shows "process_in_batches sketch data (Some dedup_entries) (Some dup_entries) cs ci =
     (case replay sketch 0 dedup_entries empty_index of
        Inl e \<Rightarrow> Inl e
      | Inr st \<Rightarrow>
          (case create_deduplicated_chunk sketch
                  (drop ((length dedup_entries + length dup_entries) div cs * cs) data)
                  ((length dedup_entries + length dup_entries) div cs * cs) st of
             Inl e \<Rightarrow> Inl e
           | Inr (u, d, st') \<Rightarrow> Inr (dedup_entries @ u, dup_entries @ d)))"
proof (cases "replay sketch 0 dedup_entries empty_index")
  case (Inl e)
  then show ?thesis
    using cs by (simp add: process_in_batches_def resume_state_def)
next
  case (Inr st)
  let ?pb = "(length dedup_entries + length dup_entries) div cs"
  have r: "resume_state sketch cs (Some dedup_entries) (Some dup_entries) =
      Inr (?pb, \<lparr>index = st, output_file = Some dedup_entries,
                 duplicates_output_file = Some dup_entries,
                 deduplicated_entries = [], duplicate_entries = []\<rparr>)"
    using cs Inr by (simp add: resume_state_def)
  show ?thesis
    unfolding process_in_batches_def Let_def r
    using cs Inr run_from_batch[OF cs ci refl, of sketch data ?pb st dedup_entries dup_entries]
    by (cases "create_deduplicated_chunk sketch (drop (?pb * cs) data) (?pb * cs) st") auto
qed

lemma keys_unfold:
  "source_key = [115, 111, 117, 114, 99, 101]"
  "target_key = [116, 97, 114, 103, 101, 116]"
  "filename_key = [102, 105, 108, 101, 110, 97, 109, 101]"
  by (simp_all add: source_key_def target_key_def filename_key_def str_def)

text \<open>The equations that evaluate a run on concrete records.\<close>

lemmas run_eval = process_in_batches_def resume_state_def record_of_def keys_unfold str_def
  utf8_encodable_def newline_def make_minhash_def empty_index_def lsh_insert_def lsh_query_def
  create_deduplicated_chunk_def exact_sketch_def collide_def save_checkpoint_def build_entry_def


lemma replay_minhashes:
  assumes "list_all has_source_text entries"
    and "\<forall>k \<in> fst ` set (lsh st). k < idx"
  shows "\<exists>st'. replay sketch idx entries st = Inr st' \<and>
     minhashes st' = minhashes st ++ map_of (zip [idx..<idx + length entries]
                            (map (\<lambda>e. sketch (source_paragraphs e)) entries))"
  using assms
proof (induction entries arbitrary: idx st)
  case Nil
  show ?case by simp
next
  case (Cons entry entries)
  from Cons.prems(1) have h: "has_source_text entry" and rest: "list_all has_source_text entries"
    by simp_all
  from h obtain src where f: "getitem entry source_key = Inr src"
    "make_minhash sketch src = Inr (sketch (source_paragraphs entry))"
    by (rule has_source_text_minhash)
  let ?m = "sketch (source_paragraphs entry)"
  let ?fp = "\<lambda>e. sketch (source_paragraphs e)"
  let ?st = "\<lparr>lsh = lsh st @ [(idx, ?m)], minhashes = (minhashes st)(idx \<mapsto> ?m)\<rparr>"
  have ins: "lsh_insert (lsh st) idx ?m = Inr (lsh st @ [(idx, ?m)])"
    using Cons.prems(2) by (rule lsh_insert_fresh)
  have "\<forall>k \<in> fst ` set (lsh ?st). k < idx + 1"
    using Cons.prems(2) by auto
  from Cons.IH[OF rest this] obtain st' where st': "replay sketch (idx + 1) entries ?st = Inr st'"
    "minhashes st' = minhashes ?st ++ map_of (zip [idx + 1..<idx + 1 + length entries] (map ?fp entries))"
    by blast
  have "idx < idx + length (entry # entries)" by simp
  from upt_conv_Cons[OF this]
  have u: "[idx..<idx + length (entry # entries)] = idx # [idx + 1..<idx + 1 + length entries]"
    by simp
  have "idx \<notin> dom (map_of (zip [idx + 1..<idx + 1 + length entries] (map ?fp entries)))"
    by (auto simp: dom_map_of_conv_image_fst dest!: set_zip_leftD)
  then have "minhashes ?st ++ map_of (zip [idx + 1..<idx + 1 + length entries] (map ?fp entries)) =
      minhashes st ++ map_of (zip [idx..<idx + length (entry # entries)] (map ?fp (entry # entries)))"
    unfolding u by (simp add: map_add_upd_left)
  with st' f ins show ?case by simp
qed

lemma emitted_JObj:
  assumes "getitem entry source_key = Inr src" "getitem entry target_key = Inr tgt"
    "dict_get entry filename_key = Inr fname"
  shows "emitted entry = build_entry src tgt fname"
  using assms by (simp add: emitted_def)

lemma dedup_loop_emitted:
  assumes "dedup_loop sketch start_idx idx chunk st u d = Inr (u', d', st')"
  shows "\<exists>flags. length flags = length chunk \<and>
     u' = u @ map emitted (map fst (filter snd (zip chunk flags))) \<and>
     d' = d @ map emitted (map fst (filter (\<lambda>p. \<not> snd p) (zip chunk flags)))"
  using assms
proof (induction chunk arbitrary: idx st u d)
  case Nil
  then show ?case by simp
next
  case (Cons entry chunk)
  from Cons.prems obtain src tgt fname m where f: "getitem entry source_key = Inr src"
    "getitem entry target_key = Inr tgt" "dict_get entry filename_key = Inr fname"
    "make_minhash sketch src = Inr m"
    by (auto split: sum.splits)
  have em: "emitted entry = build_entry src tgt fname"
    using f by (simp add: emitted_JObj)
  show ?case
  proof (cases "lsh_query (lsh st) m = []")
    case True
    with Cons.prems f obtain lsh' where
      "dedup_loop sketch start_idx (idx + 1) chunk
         \<lparr>lsh = lsh', minhashes = (minhashes st)(start_idx + idx \<mapsto> m)\<rparr>
         (u @ [build_entry src tgt fname]) d = Inr (u', d', st')"
      by (auto split: sum.splits)
    from Cons.IH[OF this] obtain flags where fl: "length flags = length chunk"
      "u' = (u @ [build_entry src tgt fname]) @ map emitted (map fst (filter snd (zip chunk flags)))"
      "d' = d @ map emitted (map fst (filter (\<lambda>p. \<not> snd p) (zip chunk flags)))"
      by blast
    show ?thesis
      by (rule exI[of _ "True # flags"]) (use fl em in simp)
  next
    case False
    with Cons.prems f have
      "dedup_loop sketch start_idx (idx + 1) chunk st u (d @ [build_entry src tgt fname]) =
         Inr (u', d', st')"
      by simp
    from Cons.IH[OF this] obtain flags where fl: "length flags = length chunk"
      "u' = u @ map emitted (map fst (filter snd (zip chunk flags)))"
      "d' = (d @ [build_entry src tgt fname]) @ map emitted (map fst (filter (\<lambda>p. \<not> snd p) (zip chunk flags)))"
      by blast
    show ?thesis
      by (rule exI[of _ "False # flags"]) (use fl em in simp)
  qed
qed

lemma dedup_loop_fields:
  assumes "dedup_loop sketch start_idx idx chunk st u d = Inr (u', d', st')"
    and "entry \<in> set chunk"
  shows "\<exists>src tgt fname. getitem entry source_key = Inr src \<and> getitem entry target_key = Inr tgt \<and>
     dict_get entry filename_key = Inr fname"
  using assms
proof (induction chunk arbitrary: idx st u d)
  case Nil
  then show ?case by simp
next
  case (Cons e chunk)
  from Cons.prems(1) obtain src tgt fname m where f: "getitem e source_key = Inr src"
    "getitem e target_key = Inr tgt" "dict_get e filename_key = Inr fname"
    "make_minhash sketch src = Inr m"
    by (auto split: sum.splits)
  show ?case
  proof (cases "entry = e")
    case True
    with f show ?thesis by blast
  next
    case False
    with Cons.prems(2) have "entry \<in> set chunk" by simp
    moreover from Cons.prems(1) f obtain st1 u1 d1 where
      "dedup_loop sketch start_idx (idx + 1) chunk st1 u1 d1 = Inr (u', d', st')"
      by (auto split: sum.splits if_splits)
    ultimately show ?thesis using Cons.IH by blast
  qed
qed

lemma build_entry_fields:
  "getitem (build_entry src tgt fname) source_key = Inr src"
  "getitem (build_entry src tgt fname) target_key = Inr tgt"
  "contains filename_key (build_entry src tgt fname) = Inr (truthy fname)"
  "truthy fname \<Longrightarrow> getitem (build_entry src tgt fname) filename_key = Inr fname"
  by (simp_all add: build_entry_def keys_unfold)






lemma length_minhash_values [simp]: "length (minhash_values perms S) = length perms"
  by (simp add: minhash_values_def)

text \<open>The signatures of the example records under the example hash functions.\<close>

lemma str_single: "str [c] = [of_char c]"
  by (simp add: str_def)















text \<open>
  Claim C5. For every list of records and every split of it into consecutive batches of
  any sizes, processing the batches in order, each starting at the offset of its first
  record and with the same initially empty index threaded through, gives the same
  result as processing the whole list as one batch: the same unique list, the same
  duplicate list (and the same index or the same exception). The runner itself, with
  any positive batch size and checkpoint interval and no output files at the start,
  persists exactly the two lists of the single batch.
\<close>

theorem batch_split_invariance:
  assumes "concat batches = records"
  shows "run_batches sketch batches 0 empty_index =
           create_deduplicated_chunk sketch records 0 empty_index \<and>
         (0 < chunk_size \<and> 0 < checkpoint_interval \<longrightarrow>
            process_in_batches sketch records None None chunk_size checkpoint_interval =
              (case create_deduplicated_chunk sketch records 0 empty_index of
                 Inl e \<Rightarrow> Inl e
               | Inr (unique_entries, duplicated_entries, st) \<Rightarrow>
                   Inr (unique_entries, duplicated_entries)))"
  using assms by (auto simp: run_batches_concat process_in_batches_fresh)

theorem batch_split_invariance_witness:
  "concat [[record_of ''a'' ''x''], [record_of ''b'' ''y'', record_of ''a'' ''z'']] =
     [record_of ''a'' ''x'', record_of ''b'' ''y'', record_of ''a'' ''z''] \<and>
   run_batches exact_sketch [[record_of ''a'' ''x''], [record_of ''b'' ''y'', record_of ''a'' ''z'']] 0
     empty_index =
   create_deduplicated_chunk exact_sketch
     [record_of ''a'' ''x'', record_of ''b'' ''y'', record_of ''a'' ''z''] 0 empty_index \<and>
   process_in_batches exact_sketch [record_of ''a'' ''x'', record_of ''b'' ''y'', record_of ''a'' ''z'']
     None None 2 1 = Inr ([record_of ''a'' ''x'', record_of ''b'' ''y''], [record_of ''a'' ''z''])"
proof -
  have h: "concat [[record_of ''a'' ''x''], [record_of ''b'' ''y'', record_of ''a'' ''z'']] =
     [record_of ''a'' ''x'', record_of ''b'' ''y'', record_of ''a'' ''z'']" by simp
  have e: "create_deduplicated_chunk exact_sketch
     [record_of ''a'' ''x'', record_of ''b'' ''y'', record_of ''a'' ''z''] 0 empty_index =
     Inr ([record_of ''a'' ''x'', record_of ''b'' ''y''], [record_of ''a'' ''z''],
          \<lparr>lsh = [(0, [{str ''a''}]), (1, [{str ''b''}])],
           minhashes = [0 \<mapsto> [{str ''a''}], 1 \<mapsto> [{str ''b''}]]\<rparr>)"
    by (simp add: run_eval)
  from batch_split_invariance[OF h, of exact_sketch 2 1] e show ?thesis by simp
qed

text \<open>
  Claim C2, as amended. For a run with a positive batch size and checkpoint interval
  that starts without both output files, or that resumes from output files whose
  combined number of entries is a multiple of the batch size and at most the number of
  input records: if the run completes, the unique-output file and the duplicate-output
  file together hold as many entries as the input has records; and the run does
  complete when every input record is well formed and every persisted unique entry has a
  source text.
\<close>

theorem conservation_of_records:
  assumes cs: "0 < chunk_size" and ci: "0 < checkpoint_interval"
    and start: "out = None \<or> dup = None \<or>
      (\<exists>dedup_entries dup_entries. out = Some dedup_entries \<and> dup = Some dup_entries \<and>
         chunk_size dvd (length dedup_entries + length dup_entries) \<and>
         length dedup_entries + length dup_entries \<le> length json_data)"
  shows "(\<forall>unique_entries duplicated_entries.
            process_in_batches sketch json_data out dup chunk_size checkpoint_interval =
              Inr (unique_entries, duplicated_entries) \<longrightarrow>
            length unique_entries + length duplicated_entries = length json_data) \<and>
         (list_all well_formed_record json_data \<and>
          (\<forall>dedup_entries. out = Some dedup_entries \<longrightarrow> list_all has_source_text dedup_entries) \<longrightarrow>
            (\<exists>unique_entries duplicated_entries.
               process_in_batches sketch json_data out dup chunk_size checkpoint_interval =
                 Inr (unique_entries, duplicated_entries)))"
proof (cases "out = None \<or> dup = None")
  case True
  note eq = process_in_batches_fresh[OF cs ci True, of sketch json_data]
  have count: "length u + length d = length json_data"
    if "process_in_batches sketch json_data out dup chunk_size checkpoint_interval = Inr (u, d)" for u d
    using that unfolding eq
    by (auto split: sum.splits dest: create_deduplicated_chunk_length)
  have total: "\<exists>u d. process_in_batches sketch json_data out dup chunk_size checkpoint_interval = Inr (u, d)"
    if wf: "list_all well_formed_record json_data"
  proof -
    from create_deduplicated_chunk_total[OF wf, of empty_index 0 sketch]
    obtain u d st where "create_deduplicated_chunk sketch json_data 0 empty_index = Inr (u, d, st)"
      by (auto simp: empty_index_def)
    then show ?thesis unfolding eq by simp
  qed
  from count total show ?thesis by blast
next
  case False
  with start obtain dedup_entries dup_entries where f: "out = Some dedup_entries"
      "dup = Some dup_entries"
      "chunk_size dvd (length dedup_entries + length dup_entries)"
      "length dedup_entries + length dup_entries \<le> length json_data"
    by blast
  let ?m = "length dedup_entries + length dup_entries"
  have m: "?m div chunk_size * chunk_size = ?m" using f(3) by simp
  note eq = process_in_batches_resumed[OF cs ci, of sketch json_data dedup_entries dup_entries,
      unfolded m]
  have count: "length u + length d = length json_data"
    if "process_in_batches sketch json_data out dup chunk_size checkpoint_interval = Inr (u, d)" for u d
    using that f(4) unfolding f(1,2) eq
    by (auto split: sum.splits dest!: create_deduplicated_chunk_length)
  have total: "\<exists>u d. process_in_batches sketch json_data out dup chunk_size checkpoint_interval = Inr (u, d)"
    if wf: "list_all well_formed_record json_data" and hs: "list_all has_source_text dedup_entries"
  proof -
    from replay_eq[OF hs, of empty_index 0 sketch]
    obtain st where st: "replay sketch 0 dedup_entries empty_index = Inr st"
      "lsh st = zip [0..<length dedup_entries] (map (\<lambda>e. sketch (source_paragraphs e)) dedup_entries)"
      by (auto simp: empty_index_def)
    have keys: "\<forall>k \<in> fst ` set (lsh st). k < ?m"
      unfolding st(2) by (auto dest!: set_zip_leftD)
    have "list_all well_formed_record (drop ?m json_data)"
      using wf by (auto simp: list_all_iff dest: in_set_dropD)
    from create_deduplicated_chunk_total[OF this keys, of sketch]
    obtain u d st' where "create_deduplicated_chunk sketch (drop ?m json_data) ?m st = Inr (u, d, st')"
      by blast
    then show ?thesis unfolding f(1,2) eq using st(1) by simp
  qed
  from count total f(1) show ?thesis by blast
qed

theorem conservation_of_records_witness:
  "(0::nat) < 2 \<and> (0::nat) < 1 \<and>
   (2::nat) dvd (length [record_of ''a'' ''x'', record_of ''b'' ''y''] + length ([] :: jvalue list)) \<and>
   process_in_batches exact_sketch
     [record_of ''a'' ''x'', record_of ''b'' ''y'', record_of ''a'' ''z'']
     (Some [record_of ''a'' ''x'', record_of ''b'' ''y'']) (Some []) 2 1 =
     Inr ([record_of ''a'' ''x'', record_of ''b'' ''y''], [record_of ''a'' ''z'']) \<and>
   length [record_of ''a'' ''x'', record_of ''b'' ''y''] + length [record_of ''a'' ''z''] =
     length [record_of ''a'' ''x'', record_of ''b'' ''y'', record_of ''a'' ''z'']"
proof -
  let ?data = "[record_of ''a'' ''x'', record_of ''b'' ''y'', record_of ''a'' ''z'']"
  let ?out = "[record_of ''a'' ''x'', record_of ''b'' ''y'']"
  have cs: "(0::nat) < 2" and ci: "(0::nat) < 1" by simp_all
  have start: "Some ?out = None \<or> Some ([] :: jvalue list) = None \<or>
      (\<exists>dedup_entries dup_entries. Some ?out = Some dedup_entries \<and> Some [] = Some dup_entries \<and>
         (2::nat) dvd (length dedup_entries + length dup_entries) \<and>
         length dedup_entries + length dup_entries \<le> length ?data)"
    by simp
  have wf: "list_all well_formed_record ?data \<and>
      (\<forall>dedup_entries. Some ?out = Some dedup_entries \<longrightarrow> list_all has_source_text dedup_entries)"
    by (simp add: run_eval well_formed_record_def has_source_text_def)
  from conservation_of_records[OF cs ci start, of exact_sketch] wf
  obtain u d where r: "process_in_batches exact_sketch ?data (Some ?out) (Some []) 2 1 = Inr (u, d)"
    and n: "length u + length d = length ?data"
    by blast
  have "process_in_batches exact_sketch ?data (Some ?out) (Some []) 2 1 =
      Inr (?out, [record_of ''a'' ''z''])"
    by (simp add: run_eval)
  with r n show ?thesis by simp
qed

text \<open>
  The claim as stated, for every resumed run, fails when the persisted count is not a
  multiple of the batch size: a one-record input with batch size 2 completes with one
  unique entry; run again on the files it wrote, the runner takes zero batches as
  processed, classifies the record again, now as a duplicate, and the two files hold
  two entries for one input record.
\<close>

theorem conservation_of_records_counterexample:
  "process_in_batches exact_sketch [record_of ''a'' ''x''] None None 2 5 =
     Inr ([record_of ''a'' ''x''], []) \<and>
   process_in_batches exact_sketch [record_of ''a'' ''x''] (Some [record_of ''a'' ''x'']) (Some []) 2 5 =
     Inr ([record_of ''a'' ''x''], [record_of ''a'' ''x'']) \<and>
   length [record_of ''a'' ''x''] + length [record_of ''a'' ''x''] \<noteq> length [record_of ''a'' ''x'']"
  by (simp add: run_eval)

text \<open>
  Claim C8. When both output files exist at startup, with \<open>U\<close> unique and \<open>D\<close> duplicate
  entries (every unique entry having a source text) and a positive batch size, resume
  detection returns \<open>(U + D) div chunk_size\<close> as the number of processed batches, an
  index holding the fingerprint of each persisted unique entry under the ids
  \<open>0..U-1\<close> in file order, and the two files unchanged; and the run then is the
  processing of the input records from position \<open>processed_batches * chunk_size\<close> on,
  appended to the persisted files: the records before that position are not processed
  again.
\<close>

theorem resume_state_reconstruction:
  assumes cs: "0 < chunk_size" and ci: "0 < checkpoint_interval"
    and hs: "list_all has_source_text dedup_entries"
  shows "\<exists>rs. resume_state sketch chunk_size (Some dedup_entries) (Some dup_entries) =
           Inr ((length dedup_entries + length dup_entries) div chunk_size, rs) \<and>
         lsh (index rs) = zip [0..<length dedup_entries]
                              (map (\<lambda>e. sketch (source_paragraphs e)) dedup_entries) \<and>
         minhashes (index rs) = map_of (zip [0..<length dedup_entries]
                              (map (\<lambda>e. sketch (source_paragraphs e)) dedup_entries)) \<and>
         output_file rs = Some dedup_entries \<and> duplicates_output_file rs = Some dup_entries \<and>
         deduplicated_entries rs = [] \<and> duplicate_entries rs = [] \<and>
         process_in_batches sketch json_data (Some dedup_entries) (Some dup_entries) chunk_size
             checkpoint_interval =
           (case create_deduplicated_chunk sketch
                   (drop ((length dedup_entries + length dup_entries) div chunk_size * chunk_size)
                      json_data)
                   ((length dedup_entries + length dup_entries) div chunk_size * chunk_size)
                   (index rs) of
              Inl e \<Rightarrow> Inl e
            | Inr (unique_entries, duplicated_entries, st) \<Rightarrow>
                Inr (dedup_entries @ unique_entries, dup_entries @ duplicated_entries))"
proof -
  from replay_eq[OF hs, of empty_index 0 sketch]
  obtain st where st: "replay sketch 0 dedup_entries empty_index = Inr st"
    "lsh st = zip [0..<length dedup_entries] (map (\<lambda>e. sketch (source_paragraphs e)) dedup_entries)"
    by (auto simp: empty_index_def)
  from replay_minhashes[OF hs, of empty_index 0 sketch] st(1)
  have mh: "minhashes st = map_of (zip [0..<length dedup_entries]
      (map (\<lambda>e. sketch (source_paragraphs e)) dedup_entries))"
    by (auto simp: empty_index_def)
  let ?rs = "\<lparr>index = st, output_file = Some dedup_entries,
              duplicates_output_file = Some dup_entries,
              deduplicated_entries = [], duplicate_entries = []\<rparr>"
  have r: "resume_state sketch chunk_size (Some dedup_entries) (Some dup_entries) =
      Inr ((length dedup_entries + length dup_entries) div chunk_size, ?rs)"
    using cs st(1) by (simp add: resume_state_def)
  have p: "process_in_batches sketch json_data (Some dedup_entries) (Some dup_entries) chunk_size
             checkpoint_interval =
           (case create_deduplicated_chunk sketch
                   (drop ((length dedup_entries + length dup_entries) div chunk_size * chunk_size)
                      json_data)
                   ((length dedup_entries + length dup_entries) div chunk_size * chunk_size)
                   (index ?rs) of
              Inl e \<Rightarrow> Inl e
            | Inr (unique_entries, duplicated_entries, st) \<Rightarrow>
                Inr (dedup_entries @ unique_entries, dup_entries @ duplicated_entries))"
    using process_in_batches_resumed[OF cs ci, of sketch json_data dedup_entries dup_entries] st(1)
    by simp
  show ?thesis
    by (rule exI[of _ ?rs]) (use r st(2) mh p in simp)
qed

theorem resume_state_reconstruction_witness:
  "(0::nat) < 2 \<and> (0::nat) < 1 \<and>
   list_all has_source_text [record_of ''a'' ''x'', record_of ''b'' ''y'', record_of ''c'' ''z''] \<and>
   (\<exists>rs. resume_state exact_sketch 2
           (Some [record_of ''a'' ''x'', record_of ''b'' ''y'', record_of ''c'' ''z''])
           (Some [record_of ''a'' ''w'', record_of ''b'' ''v'']) = Inr (2, rs) \<and>
         lsh (index rs) = [(0, [{str ''a''}]), (1, [{str ''b''}]), (2, [{str ''c''}])])"
proof -
  let ?out = "[record_of ''a'' ''x'', record_of ''b'' ''y'', record_of ''c'' ''z'']"
  let ?dup = "[record_of ''a'' ''w'', record_of ''b'' ''v'']"
  have cs: "(0::nat) < 2" and ci: "(0::nat) < 1" by simp_all
  have hs: "list_all has_source_text ?out" by (simp add: run_eval has_source_text_def)
  from resume_state_reconstruction[OF cs ci hs, of exact_sketch ?dup "[]"]
  obtain rs where rs: "resume_state exact_sketch 2 (Some ?out) (Some ?dup) =
      Inr ((length ?out + length ?dup) div 2, rs)"
    and l: "lsh (index rs) = zip [0..<length ?out]
        (map (\<lambda>e. exact_sketch (source_paragraphs e)) ?out)"
    by blast
  have n: "(length ?out + length ?dup) div 2 = 2" by simp
  have z: "zip [0..<length ?out] (map (\<lambda>e. exact_sketch (source_paragraphs e)) ?out) =
      [(0, [{str ''a''}]), (1, [{str ''b''}]), (2, [{str ''c''}])]"
    by (simp add: run_eval source_paragraphs_def numeral_2_eq_2)
  from rs l hs show ?thesis unfolding n z by simp
qed

text \<open>
  Claim C10. When \<open>create_deduplicated_chunk\<close> returns, every record of the chunk has
  gone to exactly one of the two lists, in order, as its emitted entry; the emitted
  entry has the record's source and target unchanged, and it has a \<open>filename\<close> field
  exactly when the record's \<open>filename\<close> value (\<open>None\<close> when the key is missing) is truthy,
  in which case the field holds that value. A record whose file name is the empty
  string or \<open>None\<close> is emitted without the field.
\<close>

theorem emitted_entry_fields:
  assumes "create_deduplicated_chunk sketch chunk start_idx st =
             Inr (unique_entries, duplicated_entries, st')"
  shows "(\<exists>flags. length flags = length chunk \<and>
            unique_entries = map emitted (map fst (filter snd (zip chunk flags))) \<and>
            duplicated_entries = map emitted (map fst (filter (\<lambda>p. \<not> snd p) (zip chunk flags)))) \<and>
         (\<forall>entry \<in> set chunk. \<exists>source_text target_text file_name.
            getitem entry source_key = Inr source_text \<and>
            getitem entry target_key = Inr target_text \<and>
            dict_get entry filename_key = Inr file_name \<and>
            getitem (emitted entry) source_key = Inr source_text \<and>
            getitem (emitted entry) target_key = Inr target_text \<and>
            contains filename_key (emitted entry) = Inr (truthy file_name) \<and>
            (truthy file_name \<longrightarrow> getitem (emitted entry) filename_key = Inr file_name))"
proof -
  note run = assms[unfolded create_deduplicated_chunk_def]
  have "\<exists>source_text target_text file_name.
            getitem entry source_key = Inr source_text \<and>
            getitem entry target_key = Inr target_text \<and>
            dict_get entry filename_key = Inr file_name \<and>
            getitem (emitted entry) source_key = Inr source_text \<and>
            getitem (emitted entry) target_key = Inr target_text \<and>
            contains filename_key (emitted entry) = Inr (truthy file_name) \<and>
            (truthy file_name \<longrightarrow> getitem (emitted entry) filename_key = Inr file_name)"
    if "entry \<in> set chunk" for entry
  proof -
    from dedup_loop_fields[OF run that] obtain src tgt fname where
      f: "getitem entry source_key = Inr src" "getitem entry target_key = Inr tgt"
         "dict_get entry filename_key = Inr fname"
      by blast
    from emitted_JObj[OF f] f show ?thesis by (simp add: build_entry_fields)
  qed
  moreover from dedup_loop_emitted[OF run]
  have "\<exists>flags. length flags = length chunk \<and>
            unique_entries = map emitted (map fst (filter snd (zip chunk flags))) \<and>
            duplicated_entries = map emitted (map fst (filter (\<lambda>p. \<not> snd p) (zip chunk flags)))"
    by simp
  ultimately show ?thesis by blast
qed

theorem emitted_entry_fields_witness:
  "create_deduplicated_chunk exact_sketch
     [JObj [(source_key, JStr (str ''a'')), (target_key, JStr (str ''x'')),
            (filename_key, JStr (str ''f''))],
      JObj [(source_key, JStr (str ''b'')), (target_key, JStr (str ''y'')),
            (filename_key, JStr [])],
      JObj [(source_key, JStr (str ''a'')), (target_key, JStr (str ''z'')),
            (filename_key, JNull)]] 0 empty_index =
   Inr ([JObj [(source_key, JStr (str ''a'')), (target_key, JStr (str ''x'')),
               (filename_key, JStr (str ''f''))],
         JObj [(source_key, JStr (str ''b'')), (target_key, JStr (str ''y''))]],
        [JObj [(source_key, JStr (str ''a'')), (target_key, JStr (str ''z''))]],
        \<lparr>lsh = [(0, [{str ''a''}]), (1, [{str ''b''}])],
         minhashes = [0 \<mapsto> [{str ''a''}], 1 \<mapsto> [{str ''b''}]]\<rparr>) \<and>
   contains filename_key
     (emitted (JObj [(source_key, JStr (str ''b'')), (target_key, JStr (str ''y'')),
                     (filename_key, JStr [])])) = Inr False"
proof -
  let ?A = "JObj [(source_key, JStr (str ''a'')), (target_key, JStr (str ''x'')),
            (filename_key, JStr (str ''f''))]"
  let ?B = "JObj [(source_key, JStr (str ''b'')), (target_key, JStr (str ''y'')),
            (filename_key, JStr [])]"
  let ?C = "JObj [(source_key, JStr (str ''a'')), (target_key, JStr (str ''z'')),
            (filename_key, JNull)]"
  have run: "create_deduplicated_chunk exact_sketch [?A, ?B, ?C] 0 empty_index =
   Inr ([JObj [(source_key, JStr (str ''a'')), (target_key, JStr (str ''x'')),
               (filename_key, JStr (str ''f''))],
         JObj [(source_key, JStr (str ''b'')), (target_key, JStr (str ''y''))]],
        [JObj [(source_key, JStr (str ''a'')), (target_key, JStr (str ''z''))]],
        \<lparr>lsh = [(0, [{str ''a''}]), (1, [{str ''b''}])],
         minhashes = [0 \<mapsto> [{str ''a''}], 1 \<mapsto> [{str ''b''}]]\<rparr>)"
    by (simp add: run_eval)
  from emitted_entry_fields[OF run]
  have "\<exists>source_text target_text file_name.
            dict_get ?B filename_key = Inr file_name \<and>
            contains filename_key (emitted ?B) = Inr (truthy file_name)"
    by auto
  moreover have "dict_get ?B filename_key = Inr (JStr [])" by (simp add: keys_unfold)
  ultimately have "contains filename_key (emitted ?B) = Inr False" by auto
  with run show ?thesis by simp
qed

section \<open>Properties of the validation path\<close>

text \<open>
  One step of the loop of \<open>process_tibetan_sentences\<close>, by kind of line.
\<close>

lemma read_lines_blank:
  "strip raw = [] \<Longrightarrow>
     read_lines loads n (raw # rest) valid invalid = read_lines loads (n + 1) rest valid invalid"
  by simp

lemma read_lines_decode_error:
  "strip raw \<noteq> [] \<Longrightarrow> loads (strip raw) = Inl msg \<Longrightarrow>
     read_lines loads n (raw # rest) valid invalid =
       read_lines loads (n + 1) rest valid
         (invalid @ [JObj [(line_number_key, JInt (int n)), (error_key, JStr msg),
                           (line_key, JStr (strip raw))]])"
  by simp

lemma missing_keys_JObj:
  "missing_keys (JObj kv) = Inr (map_of kv source_key = None \<or> map_of kv target_key = None)"
  by (auto simp: missing_keys_def)

lemma read_lines_missing_keys:
  "strip raw \<noteq> [] \<Longrightarrow> loads (strip raw) = Inr (JObj kv) \<Longrightarrow>
   map_of kv source_key = None \<or> map_of kv target_key = None \<Longrightarrow>
     read_lines loads n (raw # rest) valid invalid =
       read_lines loads (n + 1) rest valid
         (invalid @ [JObj (AList.update line_number_key (JInt (int n)) kv)])"
  by (simp add: missing_keys_JObj)

lemma read_lines_checked:
  "strip raw \<noteq> [] \<Longrightarrow> loads (strip raw) = Inr (JObj kv) \<Longrightarrow>
   map_of kv source_key = Some (JStr s) \<Longrightarrow> map_of kv target_key = Some (JStr t) \<Longrightarrow>
     read_lines loads n (raw # rest) valid invalid =
       (if validate s t then read_lines loads (n + 1) rest (valid @ [JObj kv]) invalid
        else read_lines loads (n + 1) rest valid (invalid @ [JObj kv]))"
  by (simp add: missing_keys_JObj replace_sentence_breaks_and_validate_def)

lemma recoverable_cases:
  assumes "recoverable loads raw"
  obtains (blank) "strip raw = []"
  | (decode_error) msg where "strip raw \<noteq> []" "loads (strip raw) = Inl msg"
  | (missing) kv where "strip raw \<noteq> []" "loads (strip raw) = Inr (JObj kv)"
      "map_of kv source_key = None \<or> map_of kv target_key = None"
  | (checked) kv s t where "strip raw \<noteq> []" "loads (strip raw) = Inr (JObj kv)"
      "map_of kv source_key = Some (JStr s)" "map_of kv target_key = Some (JStr t)"
  using assms unfolding recoverable_def
  by (auto split: sum.splits jvalue.splits option.splits)

lemma read_lines_recoverable:
  assumes "list_all (recoverable loads) lines"
  shows "\<exists>valid' invalid'. read_lines loads n lines valid invalid = Inr (valid', invalid') \<and>
     length valid' + length invalid' =
       length valid + length invalid + length (filter (\<lambda>raw. strip raw \<noteq> []) lines)"
  using assms
proof (induction lines arbitrary: n valid invalid)
  case Nil
  show ?case by simp
next
  case (Cons raw rest)
  from Cons.prems have r: "recoverable loads raw" and rest: "list_all (recoverable loads) rest"
    by simp_all
  note ih = Cons.IH[OF rest]
  from r show ?case
  proof (cases rule: recoverable_cases)
    case blank
    with ih[of "n + 1" valid invalid] show ?thesis
      by (simp only: read_lines_blank[OF blank]) simp
  next
    case (decode_error msg)
    with ih[of "n + 1" valid "invalid @ [JObj [(line_number_key, JInt (int n)), (error_key, JStr msg),
                           (line_key, JStr (strip raw))]]"]
    show ?thesis
      by (simp only: read_lines_decode_error[where loads = loads and raw = raw, OF decode_error]) simp
  next
    case (missing kv)
    with ih[of "n + 1" valid "invalid @ [JObj (AList.update line_number_key (JInt (int n)) kv)]"]
    show ?thesis
      by (simp only: read_lines_missing_keys[where loads = loads and raw = raw, OF missing]) simp
  next
    case (checked kv s t)
    with ih[of "n + 1" "valid @ [JObj kv]" invalid] ih[of "n + 1" valid "invalid @ [JObj kv]"]
    show ?thesis
      by (simp only: read_lines_checked[where loads = loads and raw = raw, OF checked]) (simp split: if_splits)
  qed
qed

lemmas line_eval = example_loads_def strip_def is_whitespace_def str_def newline_def
  source_key_def target_key_def line_number_key_def error_key_def line_key_def
  missing_keys_def replace_sentence_breaks_and_validate_def process_tibetan_sentences_def
  recoverable_def

lemma example_valid: "validate (str ''a b'') (str ''ab'')"
  by code_simp

text \<open>
  The paths that recover. A line that fails to parse, or that parses to an object
  without a \<open>source\<close> or a \<open>target\<close> key, adds one record to the invalid list and the
  loop goes on; when every line is of these kinds or is an object with strings for
  both keys, the run is not aborted and the two lists together have one record for
  every non-blank line.
\<close>

lemma recoverable_lines_sorted:
  "(strip raw \<noteq> [] \<and> loads (strip raw) = Inl msg \<longrightarrow>
      read_lines loads n (raw # rest) valid invalid =
        read_lines loads (n + 1) rest valid
          (invalid @ [JObj [(line_number_key, JInt (int n)), (error_key, JStr msg),
                            (line_key, JStr (strip raw))]])) \<and>
   (strip raw \<noteq> [] \<and> loads (strip raw) = Inr (JObj kv) \<and>
    (map_of kv source_key = None \<or> map_of kv target_key = None) \<longrightarrow>
      read_lines loads n (raw # rest) valid invalid =
        read_lines loads (n + 1) rest valid
          (invalid @ [JObj (AList.update line_number_key (JInt (int n)) kv)])) \<and>
   (strip raw \<noteq> [] \<and> recoverable loads raw \<longrightarrow>
      (\<exists>data_point.
         read_lines loads n (raw # rest) valid invalid =
           read_lines loads (n + 1) rest (valid @ [data_point]) invalid \<or>
         read_lines loads n (raw # rest) valid invalid =
           read_lines loads (n + 1) rest valid (invalid @ [data_point]))) \<and>
   (list_all (recoverable loads) lines \<longrightarrow>
      (\<exists>valid_data_points invalid_data_points.
         read_lines loads 1 lines [] [] = Inr (valid_data_points, invalid_data_points) \<and>
         process_tibetan_sentences loads (Some lines) = (valid_data_points, invalid_data_points) \<and>
         length valid_data_points + length invalid_data_points =
           length (filter (\<lambda>raw. strip raw \<noteq> []) lines)))"
proof -
  have one: "\<exists>data_point.
         read_lines loads n (raw # rest) valid invalid =
           read_lines loads (n + 1) rest (valid @ [data_point]) invalid \<or>
         read_lines loads n (raw # rest) valid invalid =
           read_lines loads (n + 1) rest valid (invalid @ [data_point])"
    if ne: "strip raw \<noteq> []" and r: "recoverable loads raw"
    using r
  proof (cases rule: recoverable_cases)
    case blank
    with ne show ?thesis by simp
  next
    case (decode_error msg)
    from read_lines_decode_error[where loads = loads and raw = raw, OF decode_error]
    show ?thesis by blast
  next
    case (missing kv)
    from read_lines_missing_keys[where loads = loads and raw = raw, OF missing]
    show ?thesis by blast
  next
    case (checked kv s t)
    from read_lines_checked[where loads = loads and raw = raw, OF checked, of n rest valid invalid]
    show ?thesis by (cases "validate s t") auto
  qed
  have all: "\<exists>v i. read_lines loads 1 lines [] [] = Inr (v, i) \<and>
         process_tibetan_sentences loads (Some lines) = (v, i) \<and>
         length v + length i = length (filter (\<lambda>raw. strip raw \<noteq> []) lines)"
    if "list_all (recoverable loads) lines"
  proof -
    from read_lines_recoverable[OF that, of 1 "[]" "[]"]
    obtain v i where "read_lines loads 1 lines [] [] = Inr (v, i)"
      "length v + length i = length (filter (\<lambda>raw. strip raw \<noteq> []) lines)"
      by auto
    then show ?thesis by (auto simp: process_tibetan_sentences_def)
  qed
  from one all show ?thesis
    by (auto simp: missing_keys_JObj)
qed

lemma recoverable_lines_example:
  \<open>list_all (recoverable example_loads)
     [str ''{}'' @ [newline], str ''  '' @ [newline], str ''['' @ [newline],
      str ''{"source": "a b", "target": "ab"}'' @ [newline]] \<and>
   process_tibetan_sentences example_loads
     (Some [str ''{}'' @ [newline], str ''  '' @ [newline], str ''['' @ [newline],
            str ''{"source": "a b", "target": "ab"}'' @ [newline]]) =
     ([JObj [(source_key, JStr (str ''a b'')), (target_key, JStr (str ''ab''))]],
      [JObj [(line_number_key, JInt 1)],
       JObj [(line_number_key, JInt 3),
             (error_key, JStr (str ''Expecting value: line 1 column 2 (char 1)'')),
             (line_key, JStr (str ''[''))]]) \<and>
   length [JObj [(source_key, JStr (str ''a b'')), (target_key, JStr (str ''ab''))]] +
   length [JObj [(line_number_key, JInt 1)],
       JObj [(line_number_key, JInt 3),
             (error_key, JStr (str ''Expecting value: line 1 column 2 (char 1)'')),
             (line_key, JStr (str ''[''))]] =
   length (filter (\<lambda>raw. strip raw \<noteq> [])
     [str ''{}'' @ [newline], str ''  '' @ [newline], str ''['' @ [newline],
      str ''{"source": "a b", "target": "ab"}'' @ [newline]])\<close>
proof -
  let ?lines = \<open>[str ''{}'' @ [newline], str ''  '' @ [newline], str ''['' @ [newline],
      str ''{"source": "a b", "target": "ab"}'' @ [newline]]\<close>
  have h: "list_all (recoverable example_loads) ?lines"
    by (simp add: line_eval)
  have e: \<open>process_tibetan_sentences example_loads (Some ?lines) =
     ([JObj [(source_key, JStr (str ''a b'')), (target_key, JStr (str ''ab''))]],
      [JObj [(line_number_key, JInt 1)],
       JObj [(line_number_key, JInt 3),
             (error_key, JStr (str ''Expecting value: line 1 column 2 (char 1)'')),
             (line_key, JStr (str ''[''))]])\<close>
    using example_valid by (simp add: line_eval)
  from recoverable_lines_sorted[of _ example_loads _ _ _ _ _ _ ?lines] h
  obtain v i where "process_tibetan_sentences example_loads (Some ?lines) = (v, i)"
    "length v + length i = length (filter (\<lambda>raw. strip raw \<noteq> []) ?lines)"
    by blast
  with e h show ?thesis by simp
qed

text \<open>
  Claim C9. The claim asks that a malformed record is put in the invalid list and that
  no problem of a single record aborts the run. The code misses the records that parse
  to a JSON value other than an object. At the lines \<open>{}\<close> and \<open>5\<close> the first line is
  recovered, then the test \<open>"source" not in data_point\<close> raises \<open>TypeError\<close> on the
  number, the outer handler catches it, and the function returns two empty lists:
  neither line is in the valid or the invalid list. At the line \<open>"source target"\<close>, a
  JSON string, the test for the two keys passes as a substring test, and the lookup
  that follows raises.
\<close>

theorem malformed_record_aborts_run:
  \<open>strip (str ''{}'' @ [newline]) \<noteq> [] \<and> strip (str ''5'' @ [newline]) \<noteq> [] \<and>
   example_loads (strip (str ''5'' @ [newline])) = Inr (JInt 5) \<and>
   read_lines example_loads 1 [str ''{}'' @ [newline]] [] [] =
     Inr ([], [JObj [(line_number_key, JInt 1)]]) \<and>
   read_lines example_loads 1 [str ''{}'' @ [newline], str ''5'' @ [newline]] [] [] =
     Inl TypeError \<and>
   process_tibetan_sentences example_loads (Some [str ''{}'' @ [newline], str ''5'' @ [newline]]) =
     ([], []) \<and>
   missing_keys (JStr (str ''source target'')) = Inr False \<and>
   read_lines example_loads 1 [str ''"source target"'' @ [newline]] [] [] = Inl TypeError \<and>
   process_tibetan_sentences example_loads (Some [str ''"source target"'' @ [newline]]) = ([], [])\<close>
  by (simp add: line_eval prefix_def)

end
